theory Spec2Isabelle
  imports Main
begin

section \<open>The command-safety filter of Terminal-Helper (safety.py)\<close>

text \<open>
  \<^verbatim>\<open>CommandSafety.check\<close> classifies a shell command string against two rule tables,
  \<^verbatim>\<open>DANGEROUS_SUBSTRINGS\<close> and \<^verbatim>\<open>DANGEROUS_PATTERNS\<close>. The function is embedded below
  together with the parts of the Python library it calls: \<^verbatim>\<open>str.strip\<close>, \<^verbatim>\<open>str.split\<close>,
  \<^verbatim>\<open>str.join\<close>, \<^verbatim>\<open>str.lower\<close>, the \<^verbatim>\<open>in\<close> operator on strings and \<^verbatim>\<open>re.search\<close>
  with \<^verbatim>\<open>re.IGNORECASE\<close>, first as a function of the pattern and the string and then
  with the cache of compiled patterns that the module keeps between calls.

  A Python string is a sequence of code points. Here a string is a \<^typ>\<open>string\<close>, a list
  of \<^typ>\<open>char\<close>, and a \<^typ>\<open>char\<close> with code \<open>n\<close> stands for the code point \<open>n\<close>, so the
  commands of the model are the strings over the code points 0 to 255. The character
  tables below are Python's on that range.
\<close>

subsection \<open>Character tables\<close>

text \<open>\<^verbatim>\<open>str.isspace\<close> on one code point; also the class \<^verbatim>\<open>\s\<close> of a Unicode pattern.\<close>

definition isspace :: "char \<Rightarrow> bool" where
  "isspace c =
     (let n = (of_char c :: nat)
      in (9 \<le> n \<and> n \<le> 13) \<or> (28 \<le> n \<and> n \<le> 32) \<or> n = 133 \<or> n = 160)"

text \<open>
  \<^verbatim>\<open>str.lower\<close> on one code point: the letters A to Z and the Latin-1 capitals
  (192 to 222 without the multiplication sign 215) move up by 32.
\<close>

definition lower_char :: "char \<Rightarrow> char" where
  "lower_char c =
     (let n = (of_char c :: nat)
      in if (65 \<le> n \<and> n \<le> 90) \<or> (192 \<le> n \<and> n \<le> 214) \<or> (216 \<le> n \<and> n \<le> 222)
         then char_of (n + 32) else c)"

text \<open>
  The word characters of \<^verbatim>\<open>\b\<close> in a Unicode pattern: \<^verbatim>\<open>str.isalnum\<close> or the
  underscore.
\<close>

definition is_word :: "char \<Rightarrow> bool" where
  "is_word c =
     (let n = (of_char c :: nat)
      in (48 \<le> n \<and> n \<le> 57) \<or> (65 \<le> n \<and> n \<le> 90) \<or> n = 95 \<or> (97 \<le> n \<and> n \<le> 122)
         \<or> n = 170 \<or> n = 178 \<or> n = 179 \<or> n = 181 \<or> n = 185 \<or> n = 186
         \<or> (188 \<le> n \<and> n \<le> 190) \<or> (192 \<le> n \<and> n \<le> 214) \<or> (216 \<le> n \<and> n \<le> 246)
         \<or> (248 \<le> n \<and> n \<le> 255))"

definition is_ascii_alnum :: "char \<Rightarrow> bool" where
  "is_ascii_alnum c =
     (let n = (of_char c :: nat)
      in (48 \<le> n \<and> n \<le> 57) \<or> (65 \<le> n \<and> n \<le> 90) \<or> (97 \<le> n \<and> n \<le> 122))"

text \<open>Characters that a string literal cannot hold.\<close>

abbreviation bs :: char where "bs \<equiv> CHR 0x5C"
abbreviation sq :: char where "sq \<equiv> CHR 0x27"
abbreviation dq :: char where "dq \<equiv> CHR 0x22"

subsection \<open>String methods\<close>

text \<open>\<^verbatim>\<open>s.strip()\<close>: leading and trailing whitespace removed.\<close>

definition strip :: "string \<Rightarrow> string" where
  "strip s = rev (dropWhile isspace (rev (dropWhile isspace s)))"

text \<open>\<^verbatim>\<open>s.lower()\<close>.\<close>

definition lower :: "string \<Rightarrow> string" where
  "lower s = map lower_char s"

text \<open>
  \<^verbatim>\<open>s.split()\<close>: the maximal runs of non-whitespace characters, in order. The first
  argument is the word being read.
\<close>

fun split_acc :: "string \<Rightarrow> string \<Rightarrow> string list" where
  "split_acc w [] = (if w = [] then [] else [w])"
| "split_acc w (c # cs) =
     (if isspace c then (if w = [] then split_acc [] cs else w # split_acc [] cs)
      else split_acc (w @ [c]) cs)"

definition split :: "string \<Rightarrow> string list" where
  "split s = split_acc [] s"

text \<open>\<^verbatim>\<open>" ".join(words)\<close>.\<close>

fun join_space :: "string list \<Rightarrow> string" where
  "join_space [] = []"
| "join_space [w] = w"
| "join_space (w # v # ws) = w @ '' '' @ join_space (v # ws)"

text \<open>\<^verbatim>\<open>sub in s\<close>: \<open>sub\<close> occurs in \<open>s\<close> as a contiguous block.\<close>

fun startswith :: "string \<Rightarrow> string \<Rightarrow> bool" where
  "startswith s [] = True"
| "startswith [] (p # ps) = False"
| "startswith (c # cs) (p # ps) = (if c = p then startswith cs ps else False)"

fun contains :: "string \<Rightarrow> string \<Rightarrow> bool" where
  "contains [] sub = (sub = [])"
| "contains (c # cs) sub = (if startswith (c # cs) sub then True else contains cs sub)"

subsection \<open>Regular expressions\<close>

text \<open>
  The fragment of Python's pattern syntax that the rule table uses: a pattern is a
  sequence of items, an item is the word boundary \<^verbatim>\<open>\b\<close> or an atom with an optional
  repeat \<^verbatim>\<open>?\<close>, \<^verbatim>\<open>*\<close> or \<^verbatim>\<open>+\<close>, and an atom is a literal character, a class
  \<^verbatim>\<open>[...]\<close> of characters and ranges, \<^verbatim>\<open>\s\<close> or the dot.
\<close>

datatype cls_item = CChar char | CRange char char

datatype atom = Lit char | Cls "cls_item list" | Space | AnyChar

datatype quant = Once | Opt | Star | Plus

datatype item = Boundary | Rep atom quant

type_synonym regex = "item list"

datatype tok = Raw char | Esc char

text \<open>
  What stops a pattern from compiling. \<open>ReError\<close> is Python's \<^verbatim>\<open>re.error\<close>, raised for a
  malformed pattern. \<open>NotModelled\<close> marks a pattern that uses syntax outside the fragment
  (groups, alternation, anchors, negated classes, counted or lazy repeats, escapes of
  letters and digits other than \<^verbatim>\<open>\b\<close> and \<^verbatim>\<open>\s\<close>): for such a pattern the model does not
  say what Python does.
\<close>

datatype error = ReError | NotModelled

text \<open>A backslash takes the next character with it; a pattern cannot end in one.\<close>

fun lex :: "string \<Rightarrow> error + tok list" where
  "lex [] = Inr []"
| "lex [c] = (if c = bs then Inl ReError else Inr [Raw c])"
| "lex (c # d # cs) =
     (if c = bs then (case lex cs of Inl e \<Rightarrow> Inl e | Inr ts \<Rightarrow> Inr (Esc d # ts))
      else (case lex (d # cs) of Inl e \<Rightarrow> Inl e | Inr ts \<Rightarrow> Inr (Raw c # ts)))"

text \<open>
  A character inside a class: itself, or an escaped character that is not an ASCII
  letter or digit.
\<close>

fun class_char :: "tok \<Rightarrow> error + char" where
  "class_char (Raw c) = Inr c"
| "class_char (Esc c) = (if is_ascii_alnum c then Inl NotModelled else Inr c)"

text \<open>
  The items of a class up to the closing bracket, with the tokens after it; \<open>acc\<close> holds
  the items read so far. A class that is not closed and a range whose upper end is below
  its lower end are errors. A caret or a closing bracket right after the opening bracket
  (a negated class, a bracket as a member) is outside the fragment.
\<close>

fun parse_class :: "tok list \<Rightarrow> cls_item list \<Rightarrow> error + (cls_item list \<times> tok list)" where
  "parse_class [] acc = Inl ReError"
| "parse_class (t # ts) acc =
     (if t = Raw CHR '']'' then (if acc = [] then Inl NotModelled else Inr (acc, ts))
      else if t = Raw CHR ''^'' \<and> acc = [] then Inl NotModelled
      else (case class_char t of
              Inl e \<Rightarrow> Inl e
            | Inr lo \<Rightarrow>
                (case ts of
                   m # u # us \<Rightarrow>
                     (if m = Raw CHR ''-'' then
                        (if u = Raw CHR '']'' then Inr (acc @ [CChar lo, CChar CHR ''-''], us)
                         else (case class_char u of
                                 Inl e \<Rightarrow> Inl e
                               | Inr hi \<Rightarrow>
                                   (if (of_char hi :: nat) < of_char lo then Inl ReError
                                    else parse_class us (acc @ [CRange lo hi]))))
                      else parse_class ts (acc @ [CChar lo]))
                 | _ \<Rightarrow> parse_class ts (acc @ [CChar lo]))))"

text \<open>The repeat that a token stands for, if any.\<close>

definition quant_of :: "tok \<Rightarrow> quant option" where
  "quant_of t =
     (if t = Raw CHR ''?'' then Some Opt
      else if t = Raw CHR ''*'' then Some Star
      else if t = Raw CHR ''+'' then Some Plus
      else None)"

fun starts_with_quant :: "tok list \<Rightarrow> bool" where
  "starts_with_quant [] = False"
| "starts_with_quant (t # ts) = (quant_of t \<noteq> None)"

text \<open>
  The repeat at the head of the tokens, \<open>Once\<close> when there is none. A repeat followed
  by another repeat or by a brace (lazy, possessive, multiple and counted repeats) is
  outside the fragment.
\<close>

definition take_quant :: "tok list \<Rightarrow> error + (quant \<times> tok list)" where
  "take_quant ts =
     (case ts of
        [] \<Rightarrow> Inr (Once, [])
      | t # rest \<Rightarrow>
          (case quant_of t of
             None \<Rightarrow> Inr (Once, ts)
           | Some q \<Rightarrow>
               (case rest of
                  [] \<Rightarrow> Inr (q, [])
                | u # _ \<Rightarrow>
                    (if quant_of u = None \<and> u \<noteq> Raw CHR ''{'' then Inr (q, rest)
                     else Inl NotModelled))))"

text \<open>
  One atom or the word boundary at the head of the tokens. A repeat where an atom should
  start has nothing to repeat, which is an error. An escaped ASCII letter or digit other
  than \<^verbatim>\<open>\b\<close> and \<^verbatim>\<open>\s\<close>, and an unescaped parenthesis, bar, caret, dollar, brace or
  closing bracket, are outside the fragment.
\<close>

definition special :: string where
  "special = ''()|^${}]''"

definition parse_atom :: "tok list \<Rightarrow> error + (item \<times> tok list)" where
  "parse_atom ts =
     (case ts of
        [] \<Rightarrow> Inl NotModelled
      | Esc c # rest \<Rightarrow>
          (if c = CHR ''b'' then Inr (Boundary, rest)
           else if c = CHR ''s'' then Inr (Rep Space Once, rest)
           else if is_ascii_alnum c then Inl NotModelled
           else Inr (Rep (Lit c) Once, rest))
      | Raw c # rest \<Rightarrow>
          (if c = CHR ''.'' then Inr (Rep AnyChar Once, rest)
           else if c = CHR ''['' then
             (case parse_class rest [] of
                Inl e \<Rightarrow> Inl e
              | Inr (items, rest') \<Rightarrow> Inr (Rep (Cls items) Once, rest'))
           else if quant_of (Raw c) \<noteq> None then Inl ReError
           else if c \<in> set special then Inl NotModelled
           else Inr (Rep (Lit c) Once, rest)))"

lemma parse_class_shorter:
  "parse_class ts acc = Inr (items, rest) \<Longrightarrow> length rest < length ts"
proof (induction ts arbitrary: acc rule: length_induct)
  case (1 ts)
  show ?case
  proof (cases ts)
    case Nil
    with "1.prems" show ?thesis by simp
  next
    case (Cons t ts')
    have IH: "\<And>us a. length us < length ts \<Longrightarrow> parse_class us a = Inr (items, rest)
        \<Longrightarrow> length rest < length us"
      using "1.IH" by blast
    from "1.prems" Cons show ?thesis
      apply (simp only: parse_class.simps)
      apply (simp del: parse_class.simps split: if_splits sum.splits list.splits)
      apply (auto simp del: parse_class.simps dest!: IH [rotated])
      done
  qed
qed

lemma parse_atom_shorter:
  "parse_atom ts = Inr (i, rest) \<Longrightarrow> length rest < length ts"
  unfolding parse_atom_def
  by (auto simp del: parse_class.simps split: list.splits tok.splits if_splits sum.splits
      dest: parse_class_shorter)

lemma take_quant_shorter:
  "take_quant ts = Inr (q, rest) \<Longrightarrow> length rest \<le> length ts"
  unfolding take_quant_def
  by (auto split: list.splits option.splits if_splits)

text \<open>The items of a pattern. A repeat after \<^verbatim>\<open>\b\<close> has nothing to repeat.\<close>

function parse_items :: "tok list \<Rightarrow> error + regex" where
  "parse_items ts =
     (if ts = [] then Inr []
      else (case parse_atom ts of
              Inl e \<Rightarrow> Inl e
            | Inr (Boundary, rest) \<Rightarrow>
                (if starts_with_quant rest then Inl ReError
                 else (case parse_items rest of
                         Inl e \<Rightarrow> Inl e
                       | Inr r \<Rightarrow> Inr (Boundary # r)))
            | Inr (Rep a _, rest) \<Rightarrow>
                (case take_quant rest of
                   Inl e \<Rightarrow> Inl e
                 | Inr (q, rest') \<Rightarrow>
                     (case parse_items rest' of
                        Inl e \<Rightarrow> Inl e
                      | Inr r \<Rightarrow> Inr (Rep a q # r)))))"
  by pat_completeness auto
termination
proof (relation "measure length")
  show "wf (measure length)" by simp
next
  fix ts :: "tok list" and x2 x1 rest
  assume "parse_atom ts = Inr x2" "(x1, rest) = x2"
  then have "length rest < length ts"
    using parse_atom_shorter [of ts x1 rest] by auto
  then show "(rest, ts) \<in> measure length" by simp
next
  fix ts :: "tok list" and x2 x1 rest x2a x1a rest'
  assume "parse_atom ts = Inr x2" "(x1, rest) = x2" "take_quant rest = Inr x2a"
    "(x1a, rest') = x2a"
  then have "length rest < length ts" "length rest' \<le> length rest"
    using parse_atom_shorter [of ts x1 rest] take_quant_shorter [of rest x1a rest'] by auto
  then show "(rest', ts) \<in> measure length" by simp
qed

declare parse_items.simps [simp del]

text \<open>\<^verbatim>\<open>re.compile\<close> of a pattern string, with \<^verbatim>\<open>re.IGNORECASE\<close>.\<close>

definition re_compile :: "string \<Rightarrow> error + regex" where
  "re_compile pattern = (case lex pattern of Inl e \<Rightarrow> Inl e | Inr ts \<Rightarrow> parse_items ts)"

text \<open>
  Matching under \<^verbatim>\<open>re.IGNORECASE\<close>: a pattern character and a text character agree
  when their lowercase forms are equal, and a class holds the lowercase forms of its
  members. The dot is every character but the newline.
\<close>

fun cls_item_ok :: "cls_item \<Rightarrow> char \<Rightarrow> bool" where
  "cls_item_ok (CChar c) t = (lower_char t = lower_char c)"
| "cls_item_ok (CRange lo hi) t =
     list_ex (\<lambda>n. lower_char t = lower_char (char_of n)) [of_char lo ..< Suc (of_char hi)]"

fun atom_ok :: "atom \<Rightarrow> char \<Rightarrow> bool" where
  "atom_ok (Lit c) t = (lower_char t = lower_char c)"
| "atom_ok (Cls items) t = list_ex (\<lambda>i. cls_item_ok i t) items"
| "atom_ok Space t = isspace t"
| "atom_ok AnyChar t = (t \<noteq> CHR 0x0A)"

text \<open>
  \<^verbatim>\<open>\b\<close> lies between a word character and a character that is not one; the two ends
  of the text count as not a word character.
\<close>

fun word_before :: "char option \<Rightarrow> bool" where
  "word_before None = False"
| "word_before (Some c) = is_word c"

fun word_here :: "string \<Rightarrow> bool" where
  "word_here [] = False"
| "word_here (c # cs) = is_word c"

text \<open>
  \<open>match_here r prev cs\<close>: the pattern \<open>r\<close> matches a prefix of \<open>cs\<close>, where \<open>prev\<close> is
  the character before \<open>cs\<close> in the text. Repeats are greedy and give characters back,
  as the backtracking matcher of \<^verbatim>\<open>re\<close> does.
\<close>

fun match_here :: "regex \<Rightarrow> char option \<Rightarrow> string \<Rightarrow> bool" where
  "match_here [] prev cs = True"
| "match_here (Boundary # r) prev cs =
     (if word_before prev = word_here cs then False else match_here r prev cs)"
| "match_here (Rep a Once # r) prev [] = False"
| "match_here (Rep a Once # r) prev (c # cs) =
     (if atom_ok a c then match_here r (Some c) cs else False)"
| "match_here (Rep a Opt # r) prev [] = match_here r prev []"
| "match_here (Rep a Opt # r) prev (c # cs) =
     (if atom_ok a c
      then (if match_here r (Some c) cs then True else match_here r prev (c # cs))
      else match_here r prev (c # cs))"
| "match_here (Rep a Star # r) prev [] = match_here r prev []"
| "match_here (Rep a Star # r) prev (c # cs) =
     (if atom_ok a c
      then (if match_here (Rep a Star # r) (Some c) cs then True
            else match_here r prev (c # cs))
      else match_here r prev (c # cs))"
| "match_here (Rep a Plus # r) prev [] = False"
| "match_here (Rep a Plus # r) prev (c # cs) =
     (if atom_ok a c then match_here (Rep a Star # r) (Some c) cs else False)"

text \<open>The pattern matches at some position of the text, tried from left to right.\<close>

fun search_from :: "regex \<Rightarrow> char option \<Rightarrow> string \<Rightarrow> bool" where
  "search_from r prev [] = match_here r prev []"
| "search_from r prev (c # cs) =
     (if match_here r prev (c # cs) then True else search_from r (Some c) cs)"

text \<open>
  \<^verbatim>\<open>re.search(pattern, s, re.IGNORECASE)\<close> as a truth value: the pattern is compiled,
  which can raise, and then searched for in \<open>s\<close>.
\<close>

definition re_search :: "string \<Rightarrow> string \<Rightarrow> error + bool" where
  "re_search pattern s =
     (case re_compile pattern of
        Inl e \<Rightarrow> Inl e
      | Inr r \<Rightarrow> Inr (search_from r None s))"

subsection \<open>The rule tables and the classifier\<close>

text \<open>
  The class \<^verbatim>\<open>CommandSafety\<close> holds the two rule tables as class attributes, and
  \<^verbatim>\<open>check\<close> is a class method that reads them through \<^verbatim>\<open>cls\<close>. The patterns are
  Python raw strings, so every backslash below is a character of the pattern.
\<close>

record command_safety =
  DANGEROUS_PATTERNS :: "(string \<times> string) list"
  DANGEROUS_SUBSTRINGS :: "string list"

definition CommandSafety :: command_safety where
  "CommandSafety = \<lparr>
     DANGEROUS_PATTERNS = [
       (bs # ''brm'' @ bs # ''s+-rf'' @ bs # ''s+[/~'' @ bs # ''$]'',
          ''Recursive delete of root or home''),
       (bs # ''brm'' @ bs # ''s+-rf'' @ bs # ''s+/'', ''Recursive delete including root path''),
       (''del'' @ bs # ''s+/[sq]'' @ bs # ''s+'', ''Delete with /s /q (tree wipe)''),
       (''rd'' @ bs # ''s+/[sq]'' @ bs # ''s+'', ''Remove directory tree''),
       (bs # ''bformat'' @ bs # ''s+'', ''Disk format''),
       (''Format-Volume'', ''Format volume''),
       (''Clear-Disk'', ''Clear disk''),
       (''Remove-Item'' @ bs # ''s+.*-Path'' @ bs # ''s+['' @ sq # bs # dq # '']?[/'' @ bs # bs # '']'',
          ''Remove from root or system path''),
       (''dd'' @ bs # ''s+.*of=/dev/sd'', ''Raw disk write''),
       (''>'' @ bs # ''s*/dev/sd[a-z]'', ''Overwrite block device''),
       (''>'' @ bs # ''s*/dev/nvme'', ''Overwrite NVMe''),
       (bs # ''bshutdown'' @ bs # ''s+'', ''System shutdown''),
       (bs # ''breboot'' @ bs # ''b'', ''System reboot''),
       (''Restart-Computer'', ''Restart computer''),
       (''Stop-Computer'', ''Stop computer''),
       (''Stop-Process'' @ bs # ''s+-Id'' @ bs # ''s+1'', ''Kill init process''),
       (bs # ''bbcdedit'' @ bs # ''s+'', ''Boot config edit''),
       (''reg'' @ bs # ''s+delete'', ''Registry delete''),
       ('':'' @ bs # ''('' @ bs # '')'' @ bs # ''s*'' @ bs # ''{'', ''Fork bomb pattern''),
       (bs # ''$'' @ bs # ''s*'' @ bs # ''('' @ bs # ''s*'' @ bs # ''$'' @ bs # ''s*'' @ bs # '')'',
          ''Fork bomb ($())''),
       (''Disable-WindowsOptionalFeature'', ''Disable Windows feature''),
       (''wmic'' @ bs # ''s+diskdrive'' @ bs # ''s+delete'', ''Delete disk via WMIC''),
       (''DROP'' @ bs # ''s+DATABASE'', ''Drop database''),
       (''DROP'' @ bs # ''s+TABLE'' @ bs # ''s+.*'' @ bs # ''*'', ''Drop all tables''),
       (''TRUNCATE'' @ bs # ''s+'', ''Truncate table'')],
     DANGEROUS_SUBSTRINGS = [
       ''rm -rf /'',
       ''rm -rf ~'',
       ''rm -rf /*'',
       ''rm -rf / '',
       ''rm -rf $'',
       ''format c:'',
       ''format d:'',
       ''mkfs.ext'',
       ''mkfs.ntfs'',
       '':(){ :|:& };:'',
       ''chmod -R 777 /'',
       ''chown -R''] \<rparr>"

text \<open>A verdict is the pair \<^verbatim>\<open>(is_safe, block_reason)\<close> that \<^verbatim>\<open>check\<close> returns.\<close>

type_synonym verdict = "bool \<times> string"

abbreviation is_safe :: "verdict \<Rightarrow> bool" where "is_safe \<equiv> fst"
abbreviation block_reason :: "verdict \<Rightarrow> string" where "block_reason \<equiv> snd"

text \<open>
  The second loop of \<^verbatim>\<open>check\<close>, over the pattern rules in order, and the
  \<^verbatim>\<open>return True, ""\<close> that follows it. \<^verbatim>\<open>re.search\<close> may raise; the error leaves the
  function.
\<close>

fun pattern_loop :: "(string \<times> string) list \<Rightarrow> string \<Rightarrow> error + verdict" where
  "pattern_loop [] cmd_norm = Inr (True, [])"
| "pattern_loop ((pattern, reason) # rules) cmd_norm =
     (case re_search pattern cmd_norm of
        Inl e \<Rightarrow> Inl e
      | Inr found \<Rightarrow>
          (if found then Inr (False, ''Blocked: '' @ reason)
           else pattern_loop rules cmd_norm))"

text \<open>
  The first loop of \<^verbatim>\<open>check\<close>, over the substring rules in order; when it ends
  without a match the pattern rules \<open>pats\<close> follow.
\<close>

fun substring_loop ::
  "string list \<Rightarrow> (string \<times> string) list \<Rightarrow> string \<Rightarrow> string \<Rightarrow> error + verdict" where
  "substring_loop [] pats cmd_lower cmd_norm = pattern_loop pats cmd_norm"
| "substring_loop (substr # rules) pats cmd_lower cmd_norm =
     (if contains cmd_lower (lower substr)
      then Inr (False, ''Blocked: potentially destructive ('' @ substr @ '')'')
      else substring_loop rules pats cmd_lower cmd_norm)"

text \<open>\<^verbatim>\<open>check(cls, cmd)\<close>; \<^verbatim>\<open>CommandSafety.check(cmd)\<close> is \<open>check CommandSafety cmd\<close>.\<close>

definition check :: "command_safety \<Rightarrow> string \<Rightarrow> error + verdict" where
  "check cls cmd =
     (if cmd = [] \<or> strip cmd = [] then Inr (True, [])
      else
        (let cmd_lower = lower (strip cmd);
             cmd_norm = join_space (split cmd)
         in substring_loop (DANGEROUS_SUBSTRINGS cls) (DANGEROUS_PATTERNS cls)
              cmd_lower cmd_norm))"

subsection \<open>When a rule matches\<close>

text \<open>
  A substring rule matches a command when its lowercased literal occurs in the
  lowercased, trimmed command; a pattern rule matches when the search finds the pattern
  in the whitespace-normalized command. These are the two tests of the loops above.
\<close>

definition substring_rule_matches :: "string \<Rightarrow> string \<Rightarrow> bool" where
  "substring_rule_matches substr cmd = contains (lower (strip cmd)) (lower substr)"

definition pattern_rule_matches :: "string \<Rightarrow> string \<Rightarrow> bool" where
  "pattern_rule_matches pattern cmd = (re_search pattern (join_space (split cmd)) = Inr True)"

text \<open>
  The algorithm as the specification words it: safe at once for an empty or
  whitespace-only command; otherwise the first matching substring rule in list order
  decides, then the first matching pattern rule in list order, and a command that no
  rule matches is safe.
\<close>

definition check_spec :: "command_safety \<Rightarrow> string \<Rightarrow> verdict" where
  "check_spec cls cmd =
     (if list_all isspace cmd then (True, [])
      else
        (case find (\<lambda>substr. substring_rule_matches substr cmd) (DANGEROUS_SUBSTRINGS cls) of
           Some substr \<Rightarrow> (False, ''Blocked: potentially destructive ('' @ substr @ '')'')
         | None \<Rightarrow>
             (case find (\<lambda>(pattern, reason). pattern_rule_matches pattern cmd)
                     (DANGEROUS_PATTERNS cls) of
                Some (pattern, reason) \<Rightarrow> (False, ''Blocked: '' @ reason)
              | None \<Rightarrow> (True, []))))"

subsection \<open>The pattern cache of the regular-expression module\<close>

text \<open>
  \<^verbatim>\<open>re.search(pattern, string, flags)\<close> is \<^verbatim>\<open>_compile(pattern, flags).search(string)\<close>, and
  \<^verbatim>\<open>_compile\<close> keeps the pattern objects it has built in the module-level dictionary
  \<^verbatim>\<open>_cache\<close>, under the key \<^verbatim>\<open>(type(pattern), pattern, flags)\<close>. The dictionary is state
  of the process: every caller of the module reads and fills it, and it outlives each
  call of \<^verbatim>\<open>check\<close>. It is an association list here, in insertion order as a Python
  dictionary is, with the oldest entry first. The patterns are all of type \<^verbatim>\<open>str\<close>, so
  a key is the pattern and the flags.

  A pattern object is the compiled form of its pattern, \<open>Some r\<close>, or \<open>None\<close> for an
  object that Python builds from a pattern outside the fragment described above.
\<close>

type_synonym pattern_object = "regex option"
type_synonym cache_key = "string \<times> nat"
type_synonym re_cache = "(cache_key \<times> pattern_object) list"

definition IGNORECASE :: nat where "IGNORECASE = 2"

definition MAXCACHE :: nat where "MAXCACHE = 512"

text \<open>\<^verbatim>\<open>_compiler.compile(pattern, re.IGNORECASE)\<close>: it raises or returns a pattern object.\<close>

definition compiler_compile :: "string \<Rightarrow> error + pattern_object" where
  "compiler_compile pattern =
     (case re_compile pattern of
        Inr r \<Rightarrow> Inr (Some r)
      | Inl NotModelled \<Rightarrow> Inr None
      | Inl ReError \<Rightarrow> Inl ReError)"

text \<open>
  \<^verbatim>\<open>_compile(pattern, re.IGNORECASE)\<close>, from the cache to the pattern object and the
  cache after the call. A hit returns the stored object. A miss compiles; when the
  cache holds \<^verbatim>\<open>_MAXCACHE\<close> entries the oldest is deleted, and the new object is stored
  under its key. A pattern that does not compile raises and stores nothing.
\<close>

definition drop_oldest :: "re_cache \<Rightarrow> re_cache" where
  "drop_oldest cache = (if length cache \<ge> MAXCACHE then tl cache else cache)"

definition cached_compile :: "string \<Rightarrow> re_cache \<Rightarrow> (error + pattern_object) \<times> re_cache" where
  "cached_compile pattern cache =
     (case map_of cache (pattern, IGNORECASE) of
        Some p \<Rightarrow> (Inr p, cache)
      | None \<Rightarrow>
          (case compiler_compile pattern of
             Inl e \<Rightarrow> (Inl e, cache)
           | Inr p \<Rightarrow> (Inr p, drop_oldest cache @ [((pattern, IGNORECASE), p)])))"

text \<open>\<^verbatim>\<open>p.search(string)\<close> for a pattern object \<open>p\<close>.\<close>

definition object_search :: "pattern_object \<Rightarrow> string \<Rightarrow> error + bool" where
  "object_search p s =
     (case p of
        None \<Rightarrow> Inl NotModelled
      | Some r \<Rightarrow> Inr (search_from r None s))"

text \<open>\<^verbatim>\<open>re.search(pattern, s, re.IGNORECASE)\<close> with the cache it reads and leaves.\<close>

definition re_search_cached :: "string \<Rightarrow> string \<Rightarrow> re_cache \<Rightarrow> (error + bool) \<times> re_cache" where
  "re_search_cached pattern s cache =
     (case cached_compile pattern cache of
        (Inl e, cache') \<Rightarrow> (Inl e, cache')
      | (Inr p, cache') \<Rightarrow> (object_search p s, cache'))"

text \<open>
  \<^verbatim>\<open>check\<close> again, with the cache passed from one search to the next and returned
  beside the result. The substring loop and the early return touch no state.
\<close>

fun pattern_loop_cached ::
  "(string \<times> string) list \<Rightarrow> string \<Rightarrow> re_cache \<Rightarrow> (error + verdict) \<times> re_cache" where
  "pattern_loop_cached [] cmd_norm cache = (Inr (True, []), cache)"
| "pattern_loop_cached ((pattern, reason) # rules) cmd_norm cache =
     (case re_search_cached pattern cmd_norm cache of
        (Inl e, cache') \<Rightarrow> (Inl e, cache')
      | (Inr found, cache') \<Rightarrow>
          (if found then (Inr (False, ''Blocked: '' @ reason), cache')
           else pattern_loop_cached rules cmd_norm cache'))"

fun substring_loop_cached ::
  "string list \<Rightarrow> (string \<times> string) list \<Rightarrow> string \<Rightarrow> string \<Rightarrow> re_cache \<Rightarrow>
    (error + verdict) \<times> re_cache" where
  "substring_loop_cached [] pats cmd_lower cmd_norm cache =
     pattern_loop_cached pats cmd_norm cache"
| "substring_loop_cached (substr # rules) pats cmd_lower cmd_norm cache =
     (if contains cmd_lower (lower substr)
      then (Inr (False, ''Blocked: potentially destructive ('' @ substr @ '')''), cache)
      else substring_loop_cached rules pats cmd_lower cmd_norm cache)"

definition check_with_cache ::
  "command_safety \<Rightarrow> re_cache \<Rightarrow> string \<Rightarrow> (error + verdict) \<times> re_cache" where
  "check_with_cache cls cache cmd =
     (if cmd = [] \<or> strip cmd = [] then (Inr (True, []), cache)
      else
        (let cmd_lower = lower (strip cmd);
             cmd_norm = join_space (split cmd)
         in substring_loop_cached (DANGEROUS_SUBSTRINGS cls) (DANGEROUS_PATTERNS cls)
              cmd_lower cmd_norm cache))"

text \<open>
  Only \<^verbatim>\<open>_compile\<close> writes the cache, so in every state the process reaches by calls of
  the module the keys are distinct and an entry holds the object compiled from its
  key. The entries under other flags than \<^verbatim>\<open>re.IGNORECASE\<close> are left open: \<^verbatim>\<open>check\<close>
  never looks them up.
\<close>

definition entry_ok :: "cache_key \<times> pattern_object \<Rightarrow> bool" where
  "entry_ok e =
     (case e of ((pattern, flags), p) \<Rightarrow>
        flags = IGNORECASE \<longrightarrow> compiler_compile pattern = Inr p)"

definition cache_ok :: "re_cache \<Rightarrow> bool" where
  "cache_ok cache \<longleftrightarrow> distinct (map fst cache) \<and> list_all entry_ok cache"

section \<open>Evaluation\<close>

text \<open>
  The character tables on a character literal, as conditions on its eight bits (the
  lowest first). Lowercasing a capital sets bit 5.
\<close>

lemma lower_char_bits [code]:
  "lower_char (Char b0 b1 b2 b3 b4 b5 b6 b7) =
     (if b6 \<and> \<not> b5 \<and>
         (if b7 then \<not> (b4 \<and> b2 \<and> b1 \<and> b0)
          else (b0 \<or> b1 \<or> b2 \<or> b3 \<or> b4) \<and> \<not> (b4 \<and> b3 \<and> (b2 \<or> b1 \<and> b0)))
      then Char b0 b1 b2 b3 b4 True b6 b7 else Char b0 b1 b2 b3 b4 b5 b6 b7)"
  by (cases b0; cases b1; cases b2; cases b3; cases b4; cases b5; cases b6; cases b7;
      simp add: lower_char_def char_of_eq_iff)

lemma isspace_bits [code]:
  "isspace (Char b0 b1 b2 b3 b4 b5 b6 b7) =
     (if b6 then False
      else if b5 then \<not> (b0 \<or> b1 \<or> b2 \<or> b3 \<or> b4)
      else if b7 then b0 \<and> \<not> b1 \<and> b2 \<and> \<not> b3 \<and> \<not> b4
      else if b4 then b3 \<and> b2
      else b3 \<and> \<not> (b2 \<and> b1) \<and> (b2 \<or> b1 \<or> b0))"
  by (cases b0; cases b1; cases b2; cases b3; cases b4; cases b5; cases b6; cases b7;
      simp add: isspace_def)

lemma is_word_bits [code]:
  "is_word (Char b0 b1 b2 b3 b4 b5 b6 b7) =
     (if b7 then
        (if b6 then \<not> (b4 \<and> \<not> b3 \<and> b2 \<and> b1 \<and> b0)
         else b5 \<and>
           (if b4 then (if b3 then \<not> (b1 \<and> b0) \<and> (b2 \<or> b1 \<or> b0) else \<not> b2 \<and> b1 \<or> b2 \<and> \<not> b1 \<and> b0)
            else b3 \<and> \<not> b2 \<and> b1 \<and> \<not> b0))
      else if b6 then
        (b0 \<or> b1 \<or> b2 \<or> b3 \<or> b4) \<and> \<not> (b4 \<and> b3 \<and> (b2 \<or> b1 \<and> b0))
        \<or> (\<not> b5 \<and> b4 \<and> b3 \<and> b2 \<and> b1 \<and> b0)
      else b5 \<and> b4 \<and> (\<not> b3 \<or> \<not> b2 \<and> \<not> b1))"
  by (cases b0; cases b1; cases b2; cases b3; cases b4; cases b5; cases b6; cases b7;
      simp add: is_word_def)

lemma is_ascii_alnum_bits [code]:
  "is_ascii_alnum (Char b0 b1 b2 b3 b4 b5 b6 b7) =
     (if b7 then False
      else if b6 then (b0 \<or> b1 \<or> b2 \<or> b3 \<or> b4) \<and> \<not> (b4 \<and> b3 \<and> (b2 \<or> b1 \<and> b0))
      else b5 \<and> b4 \<and> (\<not> b3 \<or> \<not> b2 \<and> \<not> b1))"
  by (cases b0; cases b1; cases b2; cases b3; cases b4; cases b5; cases b6; cases b7;
      simp add: is_ascii_alnum_def)

section \<open>The loops and the early return\<close>

lemma patterns_compile:
  "list_all (\<lambda>(p, r). \<not> isl (re_compile p)) (DANGEROUS_PATTERNS CommandSafety)"
  by code_simp

lemma pattern_loop_find:
  "list_all (\<lambda>(p, r). \<not> isl (re_compile p)) pats \<Longrightarrow>
   pattern_loop pats n =
     Inr (case find (\<lambda>(p, r). re_search p n = Inr True) pats of
            None \<Rightarrow> (True, [])
          | Some (p, r) \<Rightarrow> (False, ''Blocked: '' @ r))"
proof (induction pats)
  case Nil
  then show ?case by simp
next
  case (Cons a pats)
  obtain p r where a: "a = (p, r)" by (cases a)
  from Cons.prems a obtain rx where rx: "re_compile p = Inr rx"
    by (cases "re_compile p") auto
  show ?case
  proof (cases "search_from rx None n")
    case True
    with a rx show ?thesis by (simp add: re_search_def)
  next
    case False
    with a rx Cons show ?thesis by (simp add: re_search_def)
  qed
qed

lemma substring_loop_find:
  "substring_loop subs pats l n =
     (case find (\<lambda>sub. contains l (lower sub)) subs of
        None \<Rightarrow> pattern_loop pats n
      | Some sub \<Rightarrow> Inr (False, ''Blocked: potentially destructive ('' @ sub @ '')''))"
  by (induction subs) simp_all

lemma strip_Nil_iff: "strip s = [] \<longleftrightarrow> (\<forall>c\<in>set s. isspace c)"
proof
  assume "strip s = []"
  then have all: "\<forall>x\<in>set (dropWhile isspace s). isspace x"
    by (simp add: strip_def dropWhile_eq_Nil_conv)
  have "dropWhile isspace s = []"
  proof (rule ccontr)
    assume "dropWhile isspace s \<noteq> []"
    then have "\<not> isspace (hd (dropWhile isspace s))" "hd (dropWhile isspace s) \<in> set (dropWhile isspace s)"
      by (simp_all add: hd_dropWhile)
    with all show False by blast
  qed
  then show "\<forall>c\<in>set s. isspace c" by (simp add: dropWhile_eq_Nil_conv)
next
  assume "\<forall>c\<in>set s. isspace c"
  then have d: "dropWhile isspace s = []" by (simp add: dropWhile_eq_Nil_conv)
  show "strip s = []" by (simp only: strip_def d rev.simps dropWhile.simps)
qed

lemma split_acc_spaces:
  "\<forall>c\<in>set s. isspace c \<Longrightarrow> split_acc w s = (if w = [] then [] else [w])"
  by (induction s arbitrary: w) auto

lemma split_spaces: "\<forall>c\<in>set s. isspace c \<Longrightarrow> split s = []"
  by (simp add: split_def split_acc_spaces)

lemma check_spaces: "\<forall>c\<in>set cmd. isspace c \<Longrightarrow> check cls cmd = Inr (True, [])"
  by (simp add: check_def strip_Nil_iff)

lemma pattern_loop_reason:
  "pattern_loop pats n = Inr v \<Longrightarrow> (snd v = [] \<longleftrightarrow> fst v)"
  by (induction pats n rule: pattern_loop.induct) (auto split: sum.splits if_splits)

lemma substring_loop_reason:
  "substring_loop subs pats l n = Inr v \<Longrightarrow> (snd v = [] \<longleftrightarrow> fst v)"
  by (induction subs) (auto split: if_splits dest: pattern_loop_reason)

lemma check_reason: "check cls cmd = Inr v \<Longrightarrow> (snd v = [] \<longleftrightarrow> fst v)"
  unfolding check_def Let_def
  by (auto split: if_splits dest: substring_loop_reason)

lemma pattern_loop_total:
  "list_all (\<lambda>(p, r). \<not> isl (re_compile p)) pats \<Longrightarrow> \<exists>v. pattern_loop pats n = Inr v"
  by (simp add: pattern_loop_find)

lemma check_total:
  assumes "list_all (\<lambda>(p, r). \<not> isl (re_compile p)) (DANGEROUS_PATTERNS cls)"
  shows "\<exists>v. check cls cmd = Inr v"
proof -
  obtain v where v: "pattern_loop (DANGEROUS_PATTERNS cls) (join_space (split cmd)) = Inr v"
    using pattern_loop_total [OF assms] by blast
  show ?thesis
    unfolding check_def Let_def substring_loop_find using v
    by (auto split: option.splits)
qed


lemma check_refines:
  assumes "list_all (\<lambda>(p, r). \<not> isl (re_compile p)) (DANGEROUS_PATTERNS cls)"
  shows "check cls cmd = Inr (check_spec cls cmd)"
proof (cases "list_all isspace cmd")
  case True
  then show ?thesis
    by (simp add: check_spec_def check_spaces list_all_iff)
next
  case False
  then have ne: "cmd \<noteq> []" "strip cmd \<noteq> []"
    by (auto simp: strip_Nil_iff list_all_iff)
  have pm: "(\<lambda>(p, r). re_search p n = Inr True) = (\<lambda>(p, r). pattern_rule_matches p cmd)"
    if "n = join_space (split cmd)" for n
    using that by (simp add: pattern_rule_matches_def)
  have sm: "(\<lambda>sub. contains (lower (strip cmd)) (lower sub)) = (\<lambda>sub. substring_rule_matches sub cmd)"
    by (simp add: substring_rule_matches_def)
  show ?thesis
    using False ne
    by (simp add: check_def check_spec_def Let_def substring_loop_find
        pattern_loop_find [OF assms] pm sm split: option.splits)
qed

lemma no_rule_matches_blank:
  assumes "list_all isspace cmd"
  shows "\<not> substring_rule_matches s cmd \<or> s \<notin> set (DANGEROUS_SUBSTRINGS CommandSafety)"
    and "\<not> pattern_rule_matches p cmd \<or> (p, r) \<notin> set (DANGEROUS_PATTERNS CommandSafety)"
proof -
  have st: "strip cmd = []" "split cmd = []"
    using assms by (simp_all add: strip_Nil_iff split_spaces list_all_iff)
  have "list_all (\<lambda>s. \<not> contains [] (lower s)) (DANGEROUS_SUBSTRINGS CommandSafety)"
    by code_simp
  then show "\<not> substring_rule_matches s cmd \<or> s \<notin> set (DANGEROUS_SUBSTRINGS CommandSafety)"
    unfolding substring_rule_matches_def st lower_def list_all_iff by auto
  have "list_all (\<lambda>(p, r). re_search p [] \<noteq> Inr True) (DANGEROUS_PATTERNS CommandSafety)"
    by code_simp
  then show "\<not> pattern_rule_matches p cmd \<or> (p, r) \<notin> set (DANGEROUS_PATTERNS CommandSafety)"
    unfolding pattern_rule_matches_def st list_all_iff by auto
qed


lemma check_spec_substring_first:
  assumes i: "i < length (DANGEROUS_SUBSTRINGS cls)"
    and m: "substring_rule_matches (DANGEROUS_SUBSTRINGS cls ! i) cmd"
    and f: "\<forall>j<i. \<not> substring_rule_matches (DANGEROUS_SUBSTRINGS cls ! j) cmd"
    and nb: "\<not> list_all isspace cmd"
  shows "check_spec cls cmd =
    (False, ''Blocked: potentially destructive ('' @ DANGEROUS_SUBSTRINGS cls ! i @ '')'')"
proof -
  have "find (\<lambda>substr. substring_rule_matches substr cmd) (DANGEROUS_SUBSTRINGS cls)
      = Some (DANGEROUS_SUBSTRINGS cls ! i)"
    unfolding find_Some_iff using i m f by blast
  with nb show ?thesis by (simp add: check_spec_def)
qed

lemma check_spec_pattern_first:
  assumes s: "\<forall>substr\<in>set (DANGEROUS_SUBSTRINGS cls). \<not> substring_rule_matches substr cmd"
    and i: "i < length (DANGEROUS_PATTERNS cls)"
    and m: "pattern_rule_matches (fst (DANGEROUS_PATTERNS cls ! i)) cmd"
    and f: "\<forall>j<i. \<not> pattern_rule_matches (fst (DANGEROUS_PATTERNS cls ! j)) cmd"
    and nb: "\<not> list_all isspace cmd"
  shows "check_spec cls cmd = (False, ''Blocked: '' @ snd (DANGEROUS_PATTERNS cls ! i))"
proof -
  from s have n: "find (\<lambda>substr. substring_rule_matches substr cmd) (DANGEROUS_SUBSTRINGS cls) = None"
    by (simp add: find_None_iff)
  have "find (\<lambda>(pattern, reason). pattern_rule_matches pattern cmd) (DANGEROUS_PATTERNS cls)
      = Some (DANGEROUS_PATTERNS cls ! i)"
    unfolding find_Some_iff using i m f by (auto simp: case_prod_unfold)
  with n nb show ?thesis by (simp add: check_spec_def case_prod_unfold)
qed

lemma blank_no_substring:
  "list_all isspace cmd \<Longrightarrow> s \<in> set (DANGEROUS_SUBSTRINGS CommandSafety) \<Longrightarrow>
    \<not> substring_rule_matches s cmd"
  using no_rule_matches_blank(1) by blast

lemma blank_no_pattern:
  "list_all isspace cmd \<Longrightarrow> (p, r) \<in> set (DANGEROUS_PATTERNS CommandSafety) \<Longrightarrow>
    \<not> pattern_rule_matches p cmd"
  using no_rule_matches_blank(2) by blast


lemma check_spec_cases:
  obtains (safe) "check_spec cls cmd = (True, [])"
      "\<forall>substr\<in>set (DANGEROUS_SUBSTRINGS cls). \<not> substring_rule_matches substr cmd"
      "\<forall>(pattern, reason)\<in>set (DANGEROUS_PATTERNS cls). \<not> pattern_rule_matches pattern cmd"
  | (blank) "check_spec cls cmd = (True, [])" "list_all isspace cmd"
  | (substr) s where "s \<in> set (DANGEROUS_SUBSTRINGS cls)" "substring_rule_matches s cmd"
      "check_spec cls cmd = (False, ''Blocked: potentially destructive ('' @ s @ '')'')"
  | (pattern) p r where "(p, r) \<in> set (DANGEROUS_PATTERNS cls)" "pattern_rule_matches p cmd"
      "check_spec cls cmd = (False, ''Blocked: '' @ r)"
proof (cases "list_all isspace cmd")
  case True
  then show ?thesis using blank by (simp add: check_spec_def)
next
  case nb: False
  show ?thesis
  proof (cases "find (\<lambda>substr. substring_rule_matches substr cmd) (DANGEROUS_SUBSTRINGS cls)")
    case (Some s)
    then have "s \<in> set (DANGEROUS_SUBSTRINGS cls)" "substring_rule_matches s cmd"
      by (auto simp: find_Some_iff)
    with Some nb show ?thesis using substr by (simp add: check_spec_def)
  next
    case n: None
    show ?thesis
    proof (cases "find (\<lambda>(pattern, reason). pattern_rule_matches pattern cmd) (DANGEROUS_PATTERNS cls)")
      case None
      with n nb have "check_spec cls cmd = (True, [])" by (simp add: check_spec_def)
      moreover from n have "\<forall>substr\<in>set (DANGEROUS_SUBSTRINGS cls). \<not> substring_rule_matches substr cmd"
        by (simp add: find_None_iff)
      moreover from None
      have "\<forall>(pattern, reason)\<in>set (DANGEROUS_PATTERNS cls). \<not> pattern_rule_matches pattern cmd"
        by (auto simp: find_None_iff)
      ultimately show ?thesis using safe by blast
    next
      case (Some a)
      obtain p r where a: "a = (p, r)" by (cases a)
      from Some a obtain i where i: "i < length (DANGEROUS_PATTERNS cls)"
          "DANGEROUS_PATTERNS cls ! i = (p, r)" and m: "pattern_rule_matches p cmd"
        by (auto simp: find_Some_iff)
      from i have "(p, r) \<in> set (DANGEROUS_PATTERNS cls)"
        using nth_mem [of i "DANGEROUS_PATTERNS cls"] by simp
      note this m
      with Some a n nb show ?thesis using pattern by (simp add: check_spec_def)
    qed
  qed
qed

section \<open>Substrings, trimming and lowercase\<close>


lemma startswith_iff: "startswith s p \<longleftrightarrow> (\<exists>q. s = p @ q)"
  by (induction s p rule: startswith.induct) auto

lemma contains_iff: "contains s sub \<longleftrightarrow> (\<exists>p q. s = p @ sub @ q)"
proof (induction s)
  case Nil
  then show ?case by auto
next
  case (Cons c cs)
  show ?case
  proof
    assume "contains (c # cs) sub"
    then consider "startswith (c # cs) sub" | "contains cs sub"
      by (auto split: if_splits)
    then show "\<exists>p q. c # cs = p @ sub @ q"
    proof cases
      case 1
      then obtain q where "c # cs = sub @ q" by (auto simp: startswith_iff)
      then have "c # cs = [] @ sub @ q" by simp
      then show ?thesis by blast
    next
      case 2
      with Cons obtain p q where "cs = p @ sub @ q" by blast
      then have "c # cs = (c # p) @ sub @ q" by simp
      then show ?thesis by blast
    qed
  next
    assume "\<exists>p q. c # cs = p @ sub @ q"
    then obtain p q where e: "c # cs = p @ sub @ q" by blast
    show "contains (c # cs) sub"
    proof (cases p)
      case Nil
      with e have "startswith (c # cs) sub" by (auto simp: startswith_iff)
      then show ?thesis by simp
    next
      case (Cons a p')
      with e have "cs = p' @ sub @ q" by simp
      with Cons.IH have "contains cs sub" by blast
      then show ?thesis by simp
    qed
  qed
qed

lemma dropWhile_keeps:
  assumes "x \<noteq> []" "\<not> P (hd x)"
  shows "\<exists>p. dropWhile P (pre @ x @ post) = p @ x @ post"
proof (cases "\<forall>c\<in>set pre. P c")
  case True
  from assms obtain a x' where x: "x = a # x'" "\<not> P a" by (cases x) auto
  from True have "dropWhile P (pre @ x @ post) = dropWhile P (x @ post)"
    by (simp add: dropWhile_append)
  also have "\<dots> = [] @ x @ post" using x by simp
  finally show ?thesis by blast
next
  case False
  then have "dropWhile P (pre @ x @ post) = dropWhile P pre @ x @ post"
    by (auto simp: dropWhile_append)
  then show ?thesis by blast
qed

lemma strip_keeps:
  assumes "x \<noteq> []" "\<not> isspace (hd x)" "\<not> isspace (last x)"
  shows "\<exists>p q. strip (pre @ x @ post) = p @ x @ q"
proof -
  obtain p where p: "dropWhile isspace (pre @ x @ post) = p @ x @ post"
    using dropWhile_keeps [of x isspace pre post] assms by blast
  have "rev x \<noteq> []" "\<not> isspace (hd (rev x))"
    using assms by (simp_all add: hd_rev)
  then obtain q where q: "dropWhile isspace (rev post @ rev x @ rev p) = q @ rev x @ rev p"
    using dropWhile_keeps [of "rev x" isspace "rev post" "rev p"] by blast
  have "strip (pre @ x @ post) = p @ x @ rev q"
    by (simp add: strip_def p q)
  then show ?thesis by blast
qed

lemma isspace_lower_char: "isspace (lower_char c) = isspace c"
proof (cases c)
  case (Char b0 b1 b2 b3 b4 b5 b6 b7)
  show ?thesis unfolding Char
    by (cases b0; cases b1; cases b2; cases b3; cases b4; cases b5; cases b6; cases b7;
        simp add: lower_char_bits isspace_bits)
qed

lemma is_word_lower_char: "is_word (lower_char c) = is_word c"
proof (cases c)
  case (Char b0 b1 b2 b3 b4 b5 b6 b7)
  show ?thesis unfolding Char
    by (cases b0; cases b1; cases b2; cases b3; cases b4; cases b5; cases b6; cases b7;
        simp add: lower_char_bits is_word_bits)
qed

lemma newline_lower_char: "lower_char c = CHR 0x0A \<longleftrightarrow> c = CHR 0x0A"
proof (cases c)
  case (Char b0 b1 b2 b3 b4 b5 b6 b7)
  show ?thesis unfolding Char
    by (cases b0; cases b1; cases b2; cases b3; cases b4; cases b5; cases b6; cases b7;
        simp add: lower_char_bits)
qed

lemma lower_char_idem: "lower_char (lower_char c) = lower_char c"
proof (cases c)
  case (Char b0 b1 b2 b3 b4 b5 b6 b7)
  show ?thesis unfolding Char
    by (cases b0; cases b1; cases b2; cases b3; cases b4; cases b5; cases b6; cases b7;
        simp add: lower_char_bits)
qed

lemma lower_append: "lower (a @ b) = lower a @ lower b"
  by (simp add: lower_def)

lemma substring_loop_hit:
  assumes "s \<in> set subs" "contains l (lower s)"
  shows "\<exists>s'\<in>set subs. substring_loop subs pats l n =
    Inr (False, ''Blocked: potentially destructive ('' @ s' @ '')'')"
proof -
  obtain s' where f: "find (\<lambda>sub. contains l (lower sub)) subs = Some s'"
    using assms by (cases "find (\<lambda>sub. contains l (lower sub)) subs") (auto simp: find_None_iff)
  then obtain i where "i < length subs" "subs ! i = s'" by (auto simp: find_Some_iff)
  then have "s' \<in> set subs" using nth_mem by blast
  with f show ?thesis by (auto simp: substring_loop_find)
qed


lemma rule_cores:
  "list_all (\<lambda>s. list_ex (\<lambda>c. c \<noteq> [] \<and> \<not> isspace (hd c) \<and> \<not> isspace (last c) \<and> startswith s c)
       (DANGEROUS_SUBSTRINGS CommandSafety))
     (DANGEROUS_SUBSTRINGS CommandSafety)"
  by code_simp

lemma lower_eq_isspace:
  assumes "lower a = lower b" "a \<noteq> []"
  shows "isspace (hd a) = isspace (hd b)" "isspace (last a) = isspace (last b)"
proof -
  from assms have b: "b \<noteq> []" by (auto simp: lower_def)
  from assms b have "lower_char (hd a) = lower_char (hd b)"
    using hd_map [of a lower_char] hd_map [of b lower_char] by (simp add: lower_def)
  then show "isspace (hd a) = isspace (hd b)"
    by (metis isspace_lower_char)
  from assms b have "lower_char (last a) = lower_char (last b)"
    using last_map [of a lower_char] last_map [of b lower_char] by (simp add: lower_def)
  then show "isspace (last a) = isspace (last b)"
    by (metis isspace_lower_char)
qed

lemma embedded_variant_blocked:
  assumes s: "s \<in> set (DANGEROUS_SUBSTRINGS CommandSafety)" and x: "lower x = lower s"
  shows "\<exists>s'\<in>set (DANGEROUS_SUBSTRINGS CommandSafety).
    check CommandSafety (pre @ x @ post) =
      Inr (False, ''Blocked: potentially destructive ('' @ s' @ '')'')"
proof -
  from rule_cores s obtain c t where c: "c \<in> set (DANGEROUS_SUBSTRINGS CommandSafety)"
      "c \<noteq> []" "\<not> isspace (hd c)" "\<not> isspace (last c)" and st: "s = c @ t"
    by (auto simp: list_all_iff list_ex_iff startswith_iff)
  define xc where "xc = take (length c) x"
  define xt where "xt = drop (length c) x"
  have xs: "x = xc @ xt" by (simp add: xc_def xt_def)
  have "lower xc = take (length c) (lower x)" by (simp add: xc_def lower_def take_map)
  also have "\<dots> = take (length c) (lower c @ lower t)" by (simp add: x st lower_append)
  also have "\<dots> = lower c" by (simp add: lower_def)
  finally have lc: "lower xc = lower c" .
  with c(2) have ne: "xc \<noteq> []" by (auto simp: lower_def)
  from lower_eq_isspace [OF lc ne] c have sp: "\<not> isspace (hd xc)" "\<not> isspace (last xc)"
    by simp_all
  obtain p q where pq: "strip (pre @ xc @ (xt @ post)) = p @ xc @ q"
    using strip_keeps [OF ne sp] by blast
  then have sx: "strip (pre @ x @ post) = p @ xc @ q" by (simp add: xs)
  have "lower (strip (pre @ x @ post)) = lower p @ lower c @ lower q"
    by (simp add: sx lower_append lc)
  then have ct: "contains (lower (strip (pre @ x @ post))) (lower c)"
    unfolding contains_iff by blast
  from ne sx xs have n: "pre @ x @ post \<noteq> []" "strip (pre @ x @ post) \<noteq> []" by auto
  from substring_loop_hit [OF c(1) ct] n show ?thesis
    by (simp add: check_def Let_def)
qed

section \<open>Whitespace around a word\<close>


lemma split_acc_word:
  "\<forall>c\<in>set w. \<not> isspace c \<Longrightarrow> split_acc u (w @ r) = split_acc (u @ w) r"
  by (induction w arbitrary: u) auto

lemma split_acc_skip:
  "\<forall>c\<in>set ws. isspace c \<Longrightarrow> split_acc [] (ws @ r) = split_acc [] r"
  by (induction ws) auto

lemma split_acc_nonempty: "u \<noteq> [] \<Longrightarrow> split_acc u r \<noteq> []"
  by (induction r arbitrary: u) auto

lemma split_pad:
  assumes "\<forall>c\<in>set ws1. isspace c" "\<forall>c\<in>set ws2. isspace c" "w \<noteq> []" "\<forall>c\<in>set w. \<not> isspace c"
  shows "split (ws1 @ w @ ws2) = [w]"
proof -
  have "split (ws1 @ w @ ws2) = split_acc [] (w @ ws2)"
    using assms(1) by (simp add: split_def split_acc_skip)
  also have "\<dots> = split_acc w ws2"
    using assms(4) split_acc_word [of w "[]" ws2] by simp
  also have "\<dots> = [w]"
    using assms(2,3) by (simp add: split_acc_spaces)
  finally show ?thesis .
qed

lemma dropWhile_pad:
  assumes "\<forall>c\<in>set ws. P c" "w \<noteq> []" "\<not> P (hd w)"
  shows "dropWhile P (ws @ w @ r) = w @ r"
proof -
  from assms obtain a w' where w: "w = a # w'" "\<not> P a" by (cases w) auto
  from assms(1) have "dropWhile P (ws @ w @ r) = dropWhile P (w @ r)"
    by (simp add: dropWhile_append)
  with w show ?thesis by simp
qed

lemma strip_pad:
  assumes "\<forall>c\<in>set ws1. isspace c" "\<forall>c\<in>set ws2. isspace c" "w \<noteq> []"
    "\<not> isspace (hd w)" "\<not> isspace (last w)"
  shows "strip (ws1 @ w @ ws2) = w"
proof -
  have a: "dropWhile isspace (ws1 @ w @ ws2) = w @ ws2"
    using assms by (intro dropWhile_pad) simp_all
  have "dropWhile isspace (rev ws2 @ rev w @ []) = rev w @ []"
    using assms by (intro dropWhile_pad) (simp_all add: hd_rev)
  then show ?thesis by (simp add: strip_def a)
qed

lemma check_pad:
  assumes "\<forall>c\<in>set ws1. isspace c" "\<forall>c\<in>set ws2. isspace c" "w \<noteq> []" "\<forall>c\<in>set w. \<not> isspace c"
  shows "check cls (ws1 @ w @ ws2) = check cls w"
proof -
  from assms(3,4) have e: "\<not> isspace (hd w)" "\<not> isspace (last w)" by simp_all
  have "strip (ws1 @ w @ ws2) = w" "split (ws1 @ w @ ws2) = [w]"
    using assms e by (simp_all add: strip_pad split_pad)
  moreover have "strip ([] @ w @ []) = w" "split ([] @ w @ []) = [w]"
    using assms e by (intro strip_pad split_pad; simp)+
  ultimately show ?thesis using assms(3) by (simp add: check_def)
qed

lemma rule_match_unsafe:
  assumes "(p, r) \<in> set (DANGEROUS_PATTERNS CommandSafety)" "pattern_rule_matches p cmd"
  shows "\<exists>v. check CommandSafety cmd = Inr v \<and> \<not> fst v"
proof -
  have r: "check CommandSafety cmd = Inr (check_spec CommandSafety cmd)"
    by (rule check_refines [OF patterns_compile])
  show ?thesis
  proof (cases CommandSafety cmd rule: check_spec_cases)
    case safe
    with assms show ?thesis by auto
  next
    case blank
    with assms show ?thesis using blank_no_pattern [of cmd p r] by auto
  next
    case (substr s)
    with r show ?thesis by simp
  next
    case (pattern p' r')
    with r show ?thesis by simp
  qed
qed

lemma shutdown_compiled:
  "re_compile (bs # ''bshutdown'' @ bs # ''s+'') =
     Inr [Boundary, Rep (Lit CHR ''s'') Once, Rep (Lit CHR ''h'') Once,
           Rep (Lit CHR ''u'') Once, Rep (Lit CHR ''t'') Once, Rep (Lit CHR ''d'') Once,
           Rep (Lit CHR ''o'') Once, Rep (Lit CHR ''w'') Once, Rep (Lit CHR ''n'') Once,
           Rep Space Plus]"
  by code_simp

lemma shutdown_space_matches:
  "search_from [Boundary, Rep (Lit CHR ''s'') Once, Rep (Lit CHR ''h'') Once,
           Rep (Lit CHR ''u'') Once, Rep (Lit CHR ''t'') Once, Rep (Lit CHR ''d'') Once,
           Rep (Lit CHR ''o'') Once, Rep (Lit CHR ''w'') Once, Rep (Lit CHR ''n'') Once,
           Rep Space Plus] None (''shutdown '' @ t)"
  by (cases t) (simp_all add: lower_char_bits is_word_bits isspace_bits)

lemma shutdown_with_argument:
  assumes "ws \<noteq> []" "\<forall>c\<in>set ws. isspace c" "\<not> isspace x"
  shows "pattern_rule_matches (bs # ''bshutdown'' @ bs # ''s+'') (''shutdown'' @ ws @ x # rest)"
proof -
  from assms obtain s0 ws' where ws: "ws = s0 # ws'" "isspace s0" "\<forall>c\<in>set ws'. isspace c"
    by (cases ws) auto
  have w: "\<forall>c\<in>set ''shutdown''. \<not> isspace c" by (simp add: isspace_bits)
  have "split (''shutdown'' @ ws @ x # rest) = split_acc ''shutdown'' (ws @ x # rest)"
    using split_acc_word [OF w, of "[]" "ws @ x # rest"] by (simp add: split_def)
  also have "\<dots> = ''shutdown'' # split_acc [] (ws' @ x # rest)"
    using ws by simp
  also have "split_acc [] (ws' @ x # rest) = split_acc [x] rest"
    using ws(3) assms(3) by (simp add: split_acc_skip)
  finally have sp: "split (''shutdown'' @ ws @ x # rest) = ''shutdown'' # split_acc [x] rest" .
  obtain v vs where v: "split_acc [x] rest = v # vs"
    using split_acc_nonempty [of "[x]" rest] by (cases "split_acc [x] rest") auto
  have "join_space (split (''shutdown'' @ ws @ x # rest)) = join_space (''shutdown'' # v # vs)"
    by (simp only: sp v)
  also have "\<dots> = ''shutdown '' @ join_space (v # vs)"
    by simp
  finally show ?thesis
    unfolding pattern_rule_matches_def re_search_def shutdown_compiled
    using shutdown_space_matches [of "join_space (v # vs)"] by simp
qed

section \<open>Text around a match\<close>

text \<open>
  A search that finds the pattern in a string finds it in every longer string that
  holds the first one between two characters that are not word characters: the
  characters that the match consumes are the same, and every boundary \<^verbatim>\<open>\b\<close> of the
  pattern sees a word character on the same sides as before.
\<close>

lemma match_here_prev_cong:
  "word_before prev = word_before prev' \<Longrightarrow> match_here r prev cs = match_here r prev' cs"
  by (induction r prev cs arbitrary: prev' rule: match_here.induct) auto

lemma word_here_append: "\<not> word_here t \<Longrightarrow> word_here (cs @ t) = word_here cs"
  by (cases cs) auto

lemma match_here_extend:
  "match_here r prev cs \<Longrightarrow> \<not> word_here t \<Longrightarrow> match_here r prev (cs @ t)"
proof (induction r prev cs rule: match_here.induct)
  case (2 r prev cs)
  then show ?case by (auto simp: word_here_append split: if_splits)
next
  case (5 a r prev)
  then have "match_here r prev t" by simp
  then show ?case by (cases t) auto
next
  case (7 a r prev)
  then have "match_here r prev t" by simp
  then show ?case by (cases t) auto
next
  case (6 a r prev c cs)
  then show ?case by (auto split: if_splits)
next
  case (8 a r prev c cs)
  then show ?case by (auto split: if_splits)
qed (auto split: if_splits)

lemma search_from_match: "match_here r prev cs \<Longrightarrow> search_from r prev cs"
  by (cases cs) auto

lemma search_from_extend:
  "search_from r prev cs \<Longrightarrow> \<not> word_here t \<Longrightarrow> search_from r prev (cs @ t)"
proof (induction cs arbitrary: prev)
  case Nil
  then have "match_here r prev ([] @ t)" using match_here_extend [of r prev "[]" t] by simp
  then show ?case by (simp add: search_from_match)
next
  case (Cons c cs)
  show ?case
  proof (cases "match_here r prev (c # cs)")
    case True
    then have "match_here r prev ((c # cs) @ t)" using Cons.prems by (intro match_here_extend)
    then show ?thesis by simp
  next
    case False
    with Cons show ?thesis by simp
  qed
qed

lemma search_from_prev_cong:
  "word_before prev = word_before prev' \<Longrightarrow> search_from r prev cs = search_from r prev' cs"
  using match_here_prev_cong [of prev prev' r] by (cases cs) auto

lemma search_from_skip:
  "search_from r (Some (last p)) n \<Longrightarrow> p \<noteq> [] \<Longrightarrow> search_from r prev (p @ n)"
proof (induction p arbitrary: prev)
  case Nil
  then show ?case by simp
next
  case (Cons c p)
  then show ?case by (cases p) auto
qed

lemma search_from_embed:
  assumes "search_from r None n" "p = [] \<or> \<not> is_word (last p)" "\<not> word_here t"
  shows "search_from r None (p @ n @ t)"
proof (cases "p = []")
  case True
  with assms show ?thesis by (simp add: search_from_extend)
next
  case False
  with assms(2) have "word_before (Some (last p)) = word_before None" by simp
  then have "search_from r (Some (last p)) (n @ t) = search_from r None (n @ t)"
    by (rule search_from_prev_cong)
  with assms False show ?thesis
    using search_from_skip [of r p "n @ t" None] by (simp add: search_from_extend)
qed

lemma join_space_Cons:
  "join_space (u # L) = (if L = [] then u else u @ '' '' @ join_space L)"
  by (cases L) simp_all

lemma split_acc_not_Nil:
  "u \<noteq> [] \<or> (\<exists>c\<in>set s. \<not> isspace c) \<Longrightarrow> split_acc u s \<noteq> []"
  by (induction s arbitrary: u) auto

lemma split_acc_first_word:
  "w \<noteq> [] \<Longrightarrow> \<exists>v vs. split_acc w r = (w @ v) # vs"
proof (induction r arbitrary: w)
  case Nil
  then show ?case by simp
next
  case (Cons c r)
  show ?case
  proof (cases "isspace c")
    case True
    with Cons.prems show ?thesis by simp
  next
    case False
    from Cons.IH [of "w @ [c]"] obtain v vs where "split_acc (w @ [c]) r = ((w @ [c]) @ v) # vs"
      by auto
    with False have "split_acc w (c # r) = (w @ (c # v)) # vs" by simp
    then show ?thesis by blast
  qed
qed

lemma split_acc_merge:
  "w \<noteq> [] \<Longrightarrow> split_acc (u @ w) r = (u @ hd (split_acc w r)) # tl (split_acc w r)"
proof (induction r arbitrary: w)
  case Nil
  then show ?case by simp
next
  case (Cons c r)
  show ?case
  proof (cases "isspace c")
    case True
    with Cons.prems show ?thesis by simp
  next
    case False
    with Cons.IH [of "w @ [c]"] show ?thesis by simp
  qed
qed

lemma join_split_acc_merge:
  assumes "w \<noteq> []"
  shows "join_space (split_acc (u @ w) r) = u @ join_space (split_acc w r)"
proof -
  obtain v vs where e: "split_acc w r = v # vs"
    using split_acc_first_word [OF assms, of r] by blast
  show ?thesis
    by (simp add: split_acc_merge [OF assms] e join_space_Cons)
qed

lemma join_split_acc_hd:
  assumes "w \<noteq> []"
  shows "join_space (split_acc w r) \<noteq> [] \<and> hd (join_space (split_acc w r)) = hd w"
proof -
  obtain v vs where e: "split_acc w r = (w @ v) # vs"
    using split_acc_first_word [OF assms, of r] by blast
  with assms show ?thesis by (simp add: join_space_Cons)
qed

lemma space_not_word: "isspace c \<Longrightarrow> \<not> is_word c"
proof (cases c)
  case (Char b0 b1 b2 b3 b4 b5 b6 b7)
  assume "isspace c"
  then show ?thesis unfolding Char
    by (cases b0; cases b1; cases b2; cases b3; cases b4; cases b5; cases b6; cases b7;
        simp add: isspace_bits is_word_bits)
qed

text \<open>Text after a command: the normalized copy of the command stays a prefix.\<close>

lemma norm_suffix:
  assumes "u \<noteq> [] \<or> (\<exists>c\<in>set x. \<not> isspace c)" "\<not> word_here post"
  shows "\<exists>t. join_space (split_acc u (x @ post)) = join_space (split_acc u x) @ t \<and> \<not> word_here t"
  using assms(1)
proof (induction x arbitrary: u)
  case Nil
  then have u: "u \<noteq> []" by simp
  show ?case
  proof (cases post)
    case Nil
    then show ?thesis using u by simp
  next
    case (Cons c r)
    show ?thesis
    proof (cases "isspace c")
      case True
      have "join_space (split_acc u (c # r)) =
          u @ (if split_acc [] r = [] then [] else '' '' @ join_space (split_acc [] r))"
        using True u by (simp add: join_space_Cons)
      moreover have "\<not> word_here (if split_acc [] r = [] then [] else '' '' @ join_space (split_acc [] r))"
        by (simp add: is_word_bits)
      ultimately show ?thesis using u Cons by auto
    next
      case False
      from assms(2) Cons have nw: "\<not> is_word c" by simp
      have "join_space (split_acc u (c # r)) = u @ join_space (split_acc [c] r)"
        using False join_split_acc_merge [of "[c]" u r] by simp
      moreover have "\<not> word_here (join_space (split_acc [c] r))"
        using join_split_acc_hd [of "[c]" r] nw
        by (cases "join_space (split_acc [c] r)") auto
      ultimately show ?thesis using u Cons by auto
    qed
  qed
next
  case (Cons c x)
  show ?case
  proof (cases "isspace c")
    case False
    with Cons.IH [of "u @ [c]"] show ?thesis by simp
  next
    case True
    note sp = True
    show ?thesis
    proof (cases "u = []")
      case True
      with Cons.prems sp have "\<exists>c\<in>set x. \<not> isspace c" by auto
      with Cons.IH [of "[]"] True sp show ?thesis by simp
    next
      case False
      note u = False
      show ?thesis
      proof (cases "\<forall>c\<in>set x. isspace c")
        case True
        have a: "split_acc [] x = []" using True by (simp add: split_acc_spaces)
        have b: "split_acc [] (x @ post) = split_acc [] post"
          using True by (simp add: split_acc_skip)
        have "join_space (split_acc u ((c # x) @ post)) =
            u @ (if split_acc [] post = [] then [] else '' '' @ join_space (split_acc [] post))"
          using sp u by (simp add: b join_space_Cons)
        moreover have "join_space (split_acc u (c # x)) = u"
          using sp u by (simp add: a)
        moreover have "\<not> word_here (if split_acc [] post = [] then []
            else '' '' @ join_space (split_acc [] post))"
          by (simp add: is_word_bits)
        ultimately show ?thesis by metis
      next
        case False
        then have nb: "\<exists>c\<in>set x. \<not> isspace c" by simp
        from Cons.IH [of "[]"] nb obtain t where
          t: "join_space (split_acc [] (x @ post)) = join_space (split_acc [] x) @ t" "\<not> word_here t"
          by auto
        have n1: "split_acc [] (x @ post) \<noteq> []" "split_acc [] x \<noteq> []"
          using nb by (auto intro!: split_acc_not_Nil)
        have "join_space (split_acc u ((c # x) @ post)) = join_space (split_acc u (c # x)) @ t"
          using sp u n1 t(1) by (simp add: join_space_Cons)
        with t(2) show ?thesis by blast
      qed
    qed
  qed
qed

text \<open>Text before a command: the normalized copy of the command stays a suffix.\<close>

lemma norm_prefix:
  assumes "\<exists>c\<in>set x. \<not> isspace c"
  shows "u @ pre = [] \<or> \<not> is_word (last (u @ pre)) \<Longrightarrow>
    \<exists>p. join_space (split_acc u (pre @ x)) = p @ join_space (split x) \<and>
        (p = [] \<or> \<not> is_word (last p))"
proof (induction pre arbitrary: u)
  case Nil
  show ?case
  proof (cases "u = []")
    case True
    then show ?thesis by (simp add: split_def)
  next
    case False
    with Nil have lu: "\<not> is_word (last u)" by simp
    from assms obtain c r where x: "x = c # r" by (cases x) auto
    show ?thesis
    proof (cases "isspace c")
      case True
      with assms x have "split_acc [] r \<noteq> []" by (auto intro!: split_acc_not_Nil)
      then have "join_space (split_acc u x) = (u @ '' '') @ join_space (split x)"
        using True False x by (simp add: split_def join_space_Cons)
      moreover have "\<not> is_word (last (u @ '' ''))" by (simp add: is_word_bits)
      ultimately show ?thesis by (metis append_Nil)
    next
      case nsp: False
      have "join_space (split_acc u x) = u @ join_space (split x)"
        using nsp x join_split_acc_merge [of "[c]" u r] by (simp add: split_def)
      with lu False show ?thesis by (metis append_Nil)
    qed
  qed
next
  case (Cons c pre)
  have nb: "\<exists>c\<in>set (pre @ x). \<not> isspace c" using assms by auto
  show ?case
  proof (cases "isspace c")
    case False
    from Cons.prems have "(u @ [c]) @ pre = [] \<or> \<not> is_word (last ((u @ [c]) @ pre))" by simp
    from Cons.IH [OF this] False show ?thesis by simp
  next
    case True
    from Cons.prems True have l: "[] @ pre = [] \<or> \<not> is_word (last ([] @ pre))"
      by (cases "pre = []") auto
    from Cons.IH [OF l] obtain p where
      p: "join_space (split_acc [] (pre @ x)) = p @ join_space (split x)"
        "p = [] \<or> \<not> is_word (last p)" by blast
    show ?thesis
    proof (cases "u = []")
      case u: True
      with True p show ?thesis by auto
    next
      case u: False
      have ne: "split_acc [] (pre @ x) \<noteq> []" using nb by (auto intro!: split_acc_not_Nil)
      have "join_space (split_acc u ((c # pre) @ x)) = (u @ '' '' @ p) @ join_space (split x)"
        using True u ne p(1) by (simp add: join_space_Cons)
      moreover have "\<not> is_word (last (u @ '' '' @ p))"
        using p(2) by (cases "p = []") (auto simp: is_word_bits)
      ultimately show ?thesis by blast
    qed
  qed
qed

lemma norm_embed:
  assumes "\<exists>c\<in>set x. \<not> isspace c" "pre = [] \<or> \<not> is_word (last pre)" "\<not> word_here post"
  shows "\<exists>p t. join_space (split (pre @ x @ post)) = p @ join_space (split x) @ t \<and>
      (p = [] \<or> \<not> is_word (last p)) \<and> \<not> word_here t"
proof -
  obtain t where t: "join_space (split (x @ post)) = join_space (split x) @ t" "\<not> word_here t"
    using norm_suffix [of "[]" x post] assms(1,3) by (auto simp: split_def)
  have "\<exists>c\<in>set (x @ post). \<not> isspace c" using assms(1) by auto
  from norm_prefix [OF this, of "[]" pre] assms(2) obtain p where
    p: "join_space (split (pre @ x @ post)) = p @ join_space (split (x @ post))"
      "p = [] \<or> \<not> is_word (last p)"
    by (auto simp: split_def)
  from p t show ?thesis by auto
qed

lemma pattern_match_embed:
  assumes "pattern_rule_matches pat x" "\<exists>c\<in>set x. \<not> isspace c"
    "pre = [] \<or> \<not> is_word (last pre)" "post = [] \<or> \<not> is_word (hd post)"
  shows "pattern_rule_matches pat (pre @ x @ post)"
proof -
  from assms(4) have wh: "\<not> word_here post" by (cases post) auto
  obtain p t where e: "join_space (split (pre @ x @ post)) = p @ join_space (split x) @ t"
      "p = [] \<or> \<not> is_word (last p)" "\<not> word_here t"
    using norm_embed [OF assms(2,3) wh] by blast
  from assms(1) obtain r where r: "re_compile pat = Inr r" "search_from r None (join_space (split x))"
    by (auto simp: pattern_rule_matches_def re_search_def split: sum.splits)
  from search_from_embed [OF r(2) e(2,3)] r(1) e(1) show ?thesis
    by (simp add: pattern_rule_matches_def re_search_def)
qed

lemma pattern_rule_embedded_unsafe:
  assumes "(p, r) \<in> set (DANGEROUS_PATTERNS CommandSafety)" "pattern_rule_matches p cmd"
    "pre = [] \<or> \<not> is_word (last pre)" "post = [] \<or> \<not> is_word (hd post)"
  shows "pattern_rule_matches p (pre @ cmd @ post) \<and>
    (\<exists>v. check CommandSafety (pre @ cmd @ post) = Inr v \<and> \<not> fst v)"
proof -
  from blank_no_pattern [of cmd p r] assms(1,2) have "\<not> list_all isspace cmd" by blast
  then have "\<exists>c\<in>set cmd. \<not> isspace c" by (simp add: list_all_iff)
  from pattern_match_embed [OF assms(2) this assms(3,4)]
  have m: "pattern_rule_matches p (pre @ cmd @ post)" .
  with rule_match_unsafe [OF assms(1)] show ?thesis by blast
qed

text \<open>
  The condition on the neighbours cannot go: the boundary \<^verbatim>\<open>\b\<close> of a pattern does not
  match between two word characters.
\<close>

lemma boundary_is_kept: "check CommandSafety ''xreboot'' = Inr (True, [])"
  by code_simp



section \<open>The pattern cache and the verdict\<close>

lemma object_search_compiled:
  "compiler_compile pattern = Inr p \<Longrightarrow> object_search p s = re_search pattern s"
  by (auto simp: compiler_compile_def object_search_def re_search_def
      split: sum.splits error.splits)

lemma compiler_compile_error:
  "compiler_compile pattern = Inl e \<Longrightarrow> re_search pattern s = Inl e"
  by (auto simp: compiler_compile_def re_search_def split: sum.splits error.splits)

lemma drop_oldest_subset: "set (drop_oldest cache) \<subseteq> set cache"
  by (cases cache) (auto simp: drop_oldest_def)

lemma drop_oldest_distinct: "distinct (map fst cache) \<Longrightarrow> distinct (map fst (drop_oldest cache))"
  by (cases cache) (auto simp: drop_oldest_def)

lemma cached_compile_ok:
  assumes "cache_ok cache"
  shows "cache_ok (snd (cached_compile pattern cache))"
proof (cases "map_of cache (pattern, IGNORECASE)")
  case (Some p)
  with assms show ?thesis by (simp add: cached_compile_def)
next
  case None
  then have k: "(pattern, IGNORECASE) \<notin> fst ` set cache" by (simp add: map_of_eq_None_iff)
  show ?thesis
  proof (cases "compiler_compile pattern")
    case (Inl e)
    with None assms show ?thesis by (simp add: cached_compile_def)
  next
    case (Inr p)
    from k drop_oldest_subset [of cache]
    have k': "(pattern, IGNORECASE) \<notin> fst ` set (drop_oldest cache)" by blast
    from assms have "list_all entry_ok (drop_oldest cache)"
      using drop_oldest_subset [of cache] by (auto simp: cache_ok_def list_all_iff)
    moreover have "entry_ok ((pattern, IGNORECASE), p)" using Inr by (simp add: entry_ok_def)
    moreover have "distinct (map fst (drop_oldest cache))"
      using assms by (simp add: cache_ok_def drop_oldest_distinct)
    ultimately show ?thesis using None Inr k'
      by (simp add: cached_compile_def cache_ok_def)
  qed
qed

lemma re_search_cached_ok:
  assumes "cache_ok cache"
  shows "fst (re_search_cached pattern s cache) = re_search pattern s"
    and "cache_ok (snd (re_search_cached pattern s cache))"
proof -
  show "cache_ok (snd (re_search_cached pattern s cache))"
    using cached_compile_ok [OF assms, of pattern]
    by (auto simp: re_search_cached_def split: prod.splits sum.splits)
  show "fst (re_search_cached pattern s cache) = re_search pattern s"
  proof (cases "map_of cache (pattern, IGNORECASE)")
    case (Some p)
    then have "((pattern, IGNORECASE), p) \<in> set cache" by (rule map_of_SomeD)
    with assms have "compiler_compile pattern = Inr p"
      by (auto simp: cache_ok_def list_all_iff entry_ok_def)
    with Some show ?thesis
      by (simp add: re_search_cached_def cached_compile_def object_search_compiled)
  next
    case None
    then show ?thesis
      by (cases "compiler_compile pattern")
        (simp_all add: re_search_cached_def cached_compile_def object_search_compiled
          compiler_compile_error)
  qed
qed

lemma pattern_loop_cached_ok:
  "cache_ok cache \<Longrightarrow>
    fst (pattern_loop_cached pats n cache) = pattern_loop pats n \<and>
    cache_ok (snd (pattern_loop_cached pats n cache))"
proof (induction pats arbitrary: cache)
  case Nil
  then show ?case by simp
next
  case (Cons a pats)
  obtain pattern reason where a: "a = (pattern, reason)" by (cases a)
  obtain res c' where s: "re_search_cached pattern n cache = (res, c')" by fastforce
  from re_search_cached_ok [OF Cons.prems, of pattern n] s
  have r: "res = re_search pattern n" "cache_ok c'" by simp_all
  show ?case
  proof (cases res)
    case (Inl e)
    with r(1) have "re_search pattern n = Inl e" by simp
    with a s Inl r(2) show ?thesis by simp
  next
    case (Inr found)
    with r(1) have "re_search pattern n = Inr found" by simp
    with a s Inr Cons.IH [OF r(2)] r(2) show ?thesis by (cases found) simp_all
  qed
qed

lemma substring_loop_cached_ok:
  "cache_ok cache \<Longrightarrow>
    fst (substring_loop_cached subs pats l n cache) = substring_loop subs pats l n \<and>
    cache_ok (snd (substring_loop_cached subs pats l n cache))"
  by (induction subs) (simp_all add: pattern_loop_cached_ok)

lemma check_with_cache_ok:
  "cache_ok cache \<Longrightarrow>
    fst (check_with_cache cls cache cmd) = check cls cmd \<and>
    cache_ok (snd (check_with_cache cls cache cmd))"
  by (simp add: check_with_cache_def check_def Let_def substring_loop_cached_ok)

text \<open>
  The hypothesis on the cache cannot go: an entry that holds another object than the
  one compiled from its key changes the verdict.
\<close>

lemma foreign_entry_changes_verdict:
  "fst (check_with_cache CommandSafety
      [((bs # ''breboot'' @ bs # ''b'', IGNORECASE), Some [Rep (Lit CHR ''l'') Once])] ''ls'') =
     Inr (False, ''Blocked: System reboot'') \<and>
   check CommandSafety ''ls'' = Inr (True, [])"
  by code_simp

section \<open>The claims\<close>

text \<open>
  C1. On every command \<open>check\<close> returns a verdict whose reason is empty exactly when
  the verdict is safe. Whenever a substring rule or a pattern rule matches the command,
  the verdict is unsafe and its reason is not empty: it is
  \<^verbatim>\<open>Blocked: potentially destructive (<literal>)\<close> with the literal of a substring rule
  that matches, or \<^verbatim>\<open>Blocked: <reason text>\<close> with the reason text of a pattern rule
  that matches.
\<close>

theorem check_reason_empty_iff_safe:
  "\<exists>v. check CommandSafety cmd = Inr v \<and>
     (block_reason v = [] \<longleftrightarrow> is_safe v) \<and>
     ((\<exists>substr\<in>set (DANGEROUS_SUBSTRINGS CommandSafety). substring_rule_matches substr cmd) \<or>
      (\<exists>(pattern, reason)\<in>set (DANGEROUS_PATTERNS CommandSafety). pattern_rule_matches pattern cmd)
      \<longrightarrow>
        \<not> is_safe v \<and> block_reason v \<noteq> [] \<and>
        ((\<exists>substr\<in>set (DANGEROUS_SUBSTRINGS CommandSafety).
            substring_rule_matches substr cmd \<and>
            block_reason v = ''Blocked: potentially destructive ('' @ substr @ '')'') \<or>
         (\<exists>(pattern, reason)\<in>set (DANGEROUS_PATTERNS CommandSafety).
            pattern_rule_matches pattern cmd \<and> block_reason v = ''Blocked: '' @ reason)))"
proof -
  have r: "check CommandSafety cmd = Inr (check_spec CommandSafety cmd)"
    by (rule check_refines [OF patterns_compile])
  show ?thesis
  proof (cases CommandSafety cmd rule: check_spec_cases)
    case safe
    with r show ?thesis by auto
  next
    case blank
    with r show ?thesis
      using blank_no_substring [of cmd] blank_no_pattern [of cmd] by auto
  next
    case (substr s)
    with r show ?thesis by auto
  next
    case (pattern p r')
    with r show ?thesis by (auto simp del: ex_simps) 
  qed
qed

theorem check_reason_empty_iff_safe_witness:
  "pattern_rule_matches (bs # ''breboot'' @ bs # ''b'') ''sudo reboot'' \<and>
   (\<exists>v. check CommandSafety ''sudo reboot'' = Inr v \<and> \<not> is_safe v \<and> block_reason v \<noteq> [])"
proof -
  have m: "pattern_rule_matches (bs # ''breboot'' @ bs # ''b'') ''sudo reboot''"
    by code_simp
  have i: "(bs # ''breboot'' @ bs # ''b'', ''System reboot'') \<in> set (DANGEROUS_PATTERNS CommandSafety)"
    by (simp add: CommandSafety_def)
  from m i have "\<exists>(pattern, reason)\<in>set (DANGEROUS_PATTERNS CommandSafety).
      pattern_rule_matches pattern ''sudo reboot''"
    by blast
  with check_reason_empty_iff_safe [of "''sudo reboot''"] m show ?thesis
    by blast
qed

text \<open>
  C2. \<open>check\<close> is the first-match search the specification describes: on every command
  it returns what \<open>check_spec\<close> returns. The substring rule at index \<open>i\<close> decides, with the
  reason \<^verbatim>\<open>Blocked: potentially destructive (<literal>)\<close>, when it matches and no
  substring rule before it does; the pattern rule at index \<open>i\<close> decides, with the reason
  \<^verbatim>\<open>Blocked: <reason text>\<close>, when no substring rule matches, it matches and no pattern
  rule before it does. The command \<^verbatim>\<open>rm -rf / ; del /s /q C:\ \<close> (ending in one
  backslash, or in two) is matched by the substring rule \<^verbatim>\<open>rm -rf /\<close> and by the
  pattern rule for \<^verbatim>\<open>del\<close>, and the reason returned is the substring rule's.
\<close>

theorem check_rule_order:
  "check CommandSafety cmd = Inr (check_spec CommandSafety cmd) \<and>
   (\<forall>i<length (DANGEROUS_SUBSTRINGS CommandSafety).
      substring_rule_matches (DANGEROUS_SUBSTRINGS CommandSafety ! i) cmd \<and>
      (\<forall>j<i. \<not> substring_rule_matches (DANGEROUS_SUBSTRINGS CommandSafety ! j) cmd) \<longrightarrow>
      check CommandSafety cmd =
        Inr (False, ''Blocked: potentially destructive (''
               @ DANGEROUS_SUBSTRINGS CommandSafety ! i @ '')'')) \<and>
   (\<forall>i<length (DANGEROUS_PATTERNS CommandSafety).
      (\<forall>substr\<in>set (DANGEROUS_SUBSTRINGS CommandSafety). \<not> substring_rule_matches substr cmd) \<and>
      pattern_rule_matches (fst (DANGEROUS_PATTERNS CommandSafety ! i)) cmd \<and>
      (\<forall>j<i. \<not> pattern_rule_matches (fst (DANGEROUS_PATTERNS CommandSafety ! j)) cmd) \<longrightarrow>
      check CommandSafety cmd =
        Inr (False, ''Blocked: '' @ snd (DANGEROUS_PATTERNS CommandSafety ! i))) \<and>
   substring_rule_matches ''rm -rf /'' (''rm -rf / ; del /s /q C:'' @ [bs]) \<and>
   pattern_rule_matches (''del'' @ bs # ''s+/[sq]'' @ bs # ''s+'')
     (''rm -rf / ; del /s /q C:'' @ [bs]) \<and>
   check CommandSafety (''rm -rf / ; del /s /q C:'' @ [bs]) =
     Inr (False, ''Blocked: potentially destructive (rm -rf /)'') \<and>
   pattern_rule_matches (''del'' @ bs # ''s+/[sq]'' @ bs # ''s+'')
     (''rm -rf / ; del /s /q C:'' @ [bs, bs]) \<and>
   check CommandSafety (''rm -rf / ; del /s /q C:'' @ [bs, bs]) =
     Inr (False, ''Blocked: potentially destructive (rm -rf /)'')"
proof (intro conjI allI impI)
  show r: "check CommandSafety cmd = Inr (check_spec CommandSafety cmd)"
    by (rule check_refines [OF patterns_compile])
  show "check CommandSafety cmd =
      Inr (False, ''Blocked: potentially destructive (''
             @ DANGEROUS_SUBSTRINGS CommandSafety ! i @ '')'')"
    if "i < length (DANGEROUS_SUBSTRINGS CommandSafety)"
      and "substring_rule_matches (DANGEROUS_SUBSTRINGS CommandSafety ! i) cmd \<and>
        (\<forall>j<i. \<not> substring_rule_matches (DANGEROUS_SUBSTRINGS CommandSafety ! j) cmd)" for i
  proof -
    from that have "\<not> list_all isspace cmd"
      using blank_no_substring [of cmd "DANGEROUS_SUBSTRINGS CommandSafety ! i"] by auto
    with that show ?thesis
      unfolding r by (simp add: check_spec_substring_first)
  qed
  show "check CommandSafety cmd =
      Inr (False, ''Blocked: '' @ snd (DANGEROUS_PATTERNS CommandSafety ! i))"
    if "i < length (DANGEROUS_PATTERNS CommandSafety)"
      and "(\<forall>substr\<in>set (DANGEROUS_SUBSTRINGS CommandSafety). \<not> substring_rule_matches substr cmd) \<and>
        pattern_rule_matches (fst (DANGEROUS_PATTERNS CommandSafety ! i)) cmd \<and>
        (\<forall>j<i. \<not> pattern_rule_matches (fst (DANGEROUS_PATTERNS CommandSafety ! j)) cmd)" for i
  proof -
    from that(1) have "DANGEROUS_PATTERNS CommandSafety ! i \<in> set (DANGEROUS_PATTERNS CommandSafety)"
      by simp
    with that have "\<not> list_all isspace cmd"
      using blank_no_pattern [of cmd "fst (DANGEROUS_PATTERNS CommandSafety ! i)"
          "snd (DANGEROUS_PATTERNS CommandSafety ! i)"] by auto
    with that show ?thesis
      unfolding r by (simp add: check_spec_pattern_first)
  qed
  show "substring_rule_matches ''rm -rf /'' (''rm -rf / ; del /s /q C:'' @ [bs])"
    by code_simp
  show "pattern_rule_matches (''del'' @ bs # ''s+/[sq]'' @ bs # ''s+'')
     (''rm -rf / ; del /s /q C:'' @ [bs])"
    by code_simp
  show "check CommandSafety (''rm -rf / ; del /s /q C:'' @ [bs]) =
     Inr (False, ''Blocked: potentially destructive (rm -rf /)'')"
    by code_simp  show "pattern_rule_matches (''del'' @ bs # ''s+/[sq]'' @ bs # ''s+'')
     (''rm -rf / ; del /s /q C:'' @ [bs, bs])"
    by code_simp
  show "check CommandSafety (''rm -rf / ; del /s /q C:'' @ [bs, bs]) =
     Inr (False, ''Blocked: potentially destructive (rm -rf /)'')"
    by code_simp
qed

theorem check_rule_order_witness:
  "check CommandSafety ''shutdown now'' = Inr (False, ''Blocked: System shutdown'') \<and>
   check CommandSafety ''format d: ; reboot'' =
     Inr (False, ''Blocked: potentially destructive (format d:)'')"
proof -
  let ?S = "DANGEROUS_SUBSTRINGS CommandSafety" and ?P = "DANGEROUS_PATTERNS CommandSafety"
  have p1: "list_all (\<lambda>substr. \<not> substring_rule_matches substr ''shutdown now'') ?S"
    by code_simp
  have p2: "list_all (\<lambda>(pattern, reason). \<not> pattern_rule_matches pattern ''shutdown now'')
      (take 11 ?P)"
    by code_simp
  have p3: "11 < length ?P \<and> ?P ! 11 = (bs # ''bshutdown'' @ bs # ''s+'', ''System shutdown'') \<and>
      pattern_rule_matches (fst (?P ! 11)) ''shutdown now''"
    by code_simp
  have p4: "\<forall>j<11. \<not> pattern_rule_matches (fst (?P ! j)) ''shutdown now''"
  proof (intro allI impI)
    fix j :: nat assume j: "j < 11"
    with p3 have "take 11 ?P ! j \<in> set (take 11 ?P)"
      by (intro nth_mem) simp
    with p2 j show "\<not> pattern_rule_matches (fst (?P ! j)) ''shutdown now''"
      by (auto simp: list_all_iff case_prod_unfold)
  qed
  have s1: "list_all (\<lambda>substr. \<not> substring_rule_matches substr ''format d: ; reboot'') (take 6 ?S)"
    by code_simp
  have s2: "6 < length ?S \<and> ?S ! 6 = ''format d:'' \<and>
      substring_rule_matches (?S ! 6) ''format d: ; reboot''"
    by code_simp
  have s3: "\<forall>j<6. \<not> substring_rule_matches (?S ! j) ''format d: ; reboot''"
  proof (intro allI impI)
    fix j :: nat assume j: "j < 6"
    with s2 have "take 6 ?S ! j \<in> set (take 6 ?S)"
      by (intro nth_mem) simp
    with s1 j show "\<not> substring_rule_matches (?S ! j) ''format d: ; reboot''"
      by (auto simp: list_all_iff)
  qed
  from check_rule_order [of "''shutdown now''"] p1 p3 p4
  have a: "check CommandSafety ''shutdown now'' = Inr (False, ''Blocked: System shutdown'')"
    by (auto simp: list_all_iff)
  from check_rule_order [of "''format d: ; reboot''"] s2 s3
  have b: "check CommandSafety ''format d: ; reboot'' =
     Inr (False, ''Blocked: potentially destructive (format d:)'')"
    by auto
  from a b show ?thesis by simp
qed

text \<open>
  C3. \<open>check\<close> returns a verdict for every command: the only call in its body that can
  raise is \<^verbatim>\<open>re.search\<close> on a malformed pattern, and every pattern of the table
  compiles. When no substring rule and no pattern rule matches, the verdict is safe with
  the empty reason.
\<close>

theorem check_never_fails:
  "(\<exists>v. check CommandSafety cmd = Inr v) \<and>
   ((\<forall>substr\<in>set (DANGEROUS_SUBSTRINGS CommandSafety). \<not> substring_rule_matches substr cmd) \<and>
    (\<forall>(pattern, reason)\<in>set (DANGEROUS_PATTERNS CommandSafety). \<not> pattern_rule_matches pattern cmd)
    \<longrightarrow> check CommandSafety cmd = Inr (True, []))"
proof -
  have r: "check CommandSafety cmd = Inr (check_spec CommandSafety cmd)"
    by (rule check_refines [OF patterns_compile])
  have "check_spec CommandSafety cmd = (True, [])"
    if s: "\<forall>substr\<in>set (DANGEROUS_SUBSTRINGS CommandSafety). \<not> substring_rule_matches substr cmd"
    and p: "\<forall>(pattern, reason)\<in>set (DANGEROUS_PATTERNS CommandSafety). \<not> pattern_rule_matches pattern cmd"
  proof -
    from s have "find (\<lambda>substr. substring_rule_matches substr cmd)
        (DANGEROUS_SUBSTRINGS CommandSafety) = None"
      by (simp add: find_None_iff)
    moreover from p have "find (\<lambda>(pattern, reason). pattern_rule_matches pattern cmd)
        (DANGEROUS_PATTERNS CommandSafety) = None"
      by (auto simp: find_None_iff)
    ultimately show ?thesis by (simp add: check_spec_def)
  qed
  with r show ?thesis by auto
qed

theorem check_never_fails_witness:
  "list_all (\<lambda>substr. \<not> substring_rule_matches substr ''ls -la'')
     (DANGEROUS_SUBSTRINGS CommandSafety) \<and>
   list_all (\<lambda>(pattern, reason). \<not> pattern_rule_matches pattern ''ls -la'')
     (DANGEROUS_PATTERNS CommandSafety) \<and>
   check CommandSafety ''ls -la'' = Inr (True, [])"
proof -
  have s: "list_all (\<lambda>substr. \<not> substring_rule_matches substr ''ls -la'')
     (DANGEROUS_SUBSTRINGS CommandSafety)"
    by code_simp
  have p: "list_all (\<lambda>(pattern, reason). \<not> pattern_rule_matches pattern ''ls -la'')
     (DANGEROUS_PATTERNS CommandSafety)"
    by code_simp
  from s p check_never_fails [of "''ls -la''"] show ?thesis
    by (simp add: list_all_iff)
qed

text \<open>
  C4. For the empty string and for every string that consists of whitespace characters
  only, \<open>check\<close> returns the verdict safe with the empty reason, and it does so before any
  rule is looked at: the result is the same for every class \<open>cls\<close>, whatever its rule
  tables hold, also for tables whose evaluation would raise.
\<close>

theorem check_blank_is_safe:
  "list_all isspace cmd \<Longrightarrow> check cls cmd = Inr (True, [])"
  by (simp add: check_spaces list_all_iff)

text \<open>
  The rules do matter for a command that is not blank: with a malformed pattern in the
  table the call raises.
\<close>

lemma check_bad_pattern_raises:
  "check \<lparr>DANGEROUS_PATTERNS = [(''*.sh'', ''shell glob'')], DANGEROUS_SUBSTRINGS = []\<rparr> ''ls''
     = Inl ReError"
  by code_simp

theorem check_blank_is_safe_witness:
  "list_all isspace [CHR '' '', CHR 0x09, CHR 0x0A] \<and>
   check CommandSafety [CHR '' '', CHR 0x09, CHR 0x0A] = Inr (True, []) \<and>
   check \<lparr>DANGEROUS_PATTERNS = [(''*.sh'', ''shell glob'')], DANGEROUS_SUBSTRINGS = []\<rparr>
     [CHR '' '', CHR 0x09, CHR 0x0A] = Inr (True, []) \<and>
   check CommandSafety [] = Inr (True, [])"
proof -
  have b: "list_all isspace [CHR '' '', CHR 0x09, CHR 0x0A]" by code_simp
  have e: "list_all isspace []" by simp
  show ?thesis
    using b check_blank_is_safe [OF b] check_blank_is_safe [OF e] by simp
qed

text \<open>
  C5, as the specification states it, fails: the literal \<^verbatim>\<open>chown -R\<close> of the substring
  rule list holds a capital letter, so it is not equal to its lowercased form.
\<close>

theorem substring_literal_not_lowercase:
  "''chown -R'' \<in> set (DANGEROUS_SUBSTRINGS CommandSafety) \<and> lower ''chown -R'' \<noteq> ''chown -R''"
  by code_simp

text \<open>
  C5, amended. All literals of the substring rule list but two are lowercase; the two
  are \<^verbatim>\<open>chmod -R 777 /\<close> and \<^verbatim>\<open>chown -R\<close>. The comparison is case-insensitive all
  the same, because \<open>check\<close> lowercases the literal (\<^verbatim>\<open>substr.lower()\<close>) before it looks
  for it in the lowercased command: a command that holds any spelling \<open>x\<close> of a literal,
  in any mix of cases, is blocked with the reason of a substring rule.
\<close>

theorem substring_compare_lowercases_literal:
  "filter (\<lambda>substr. lower substr \<noteq> substr) (DANGEROUS_SUBSTRINGS CommandSafety) =
     [''chmod -R 777 /'', ''chown -R''] \<and>
   substring_rule_matches literal cmd = contains (lower (strip cmd)) (lower literal) \<and>
   (\<forall>substr\<in>set (DANGEROUS_SUBSTRINGS CommandSafety). \<forall>x. lower x = lower substr \<longrightarrow>
      (\<exists>s'\<in>set (DANGEROUS_SUBSTRINGS CommandSafety).
         check CommandSafety (pre @ x @ post) =
           Inr (False, ''Blocked: potentially destructive ('' @ s' @ '')'')))"
proof (intro conjI ballI allI impI)
  show "filter (\<lambda>substr. lower substr \<noteq> substr) (DANGEROUS_SUBSTRINGS CommandSafety) =
     [''chmod -R 777 /'', ''chown -R'']"
    by code_simp
  show "substring_rule_matches literal cmd = contains (lower (strip cmd)) (lower literal)"
    by (simp add: substring_rule_matches_def)
  show "\<exists>s'\<in>set (DANGEROUS_SUBSTRINGS CommandSafety).
         check CommandSafety (pre @ x @ post) =
           Inr (False, ''Blocked: potentially destructive ('' @ s' @ '')'')"
    if "s \<in> set (DANGEROUS_SUBSTRINGS CommandSafety)" "lower x = lower s" for s x
    using that by (rule embedded_variant_blocked)
qed

theorem substring_compare_lowercases_literal_witness:
  "''chown -R'' \<in> set (DANGEROUS_SUBSTRINGS CommandSafety) \<and>
   lower ''CHOWN -r'' = lower ''chown -R'' \<and>
   (\<exists>s'\<in>set (DANGEROUS_SUBSTRINGS CommandSafety).
      check CommandSafety (''sudo '' @ ''CHOWN -r'' @ '' root /etc'') =
        Inr (False, ''Blocked: potentially destructive ('' @ s' @ '')''))"
proof -
  have i: "''chown -R'' \<in> set (DANGEROUS_SUBSTRINGS CommandSafety)"
    by (simp add: CommandSafety_def)
  have l: "lower ''CHOWN -r'' = lower ''chown -R''" by code_simp
  from i l substring_compare_lowercases_literal
    [of "''chown -R''" "''sudo CHOWN -r root /etc''" "''sudo ''" "'' root /etc''"]
  show ?thesis by blast
qed

text \<open>
  C6. The command \<^verbatim>\<open>rm   -rf     /\<close>, with runs of spaces inside, is blocked by the
  pattern pass: its whitespace-normalized copy is \<^verbatim>\<open>rm -rf /\<close>, no substring rule
  matches its lowercased copy, which keeps the runs of spaces, and the first pattern
  rule, for a recursive delete, matches the normalized copy and gives the reason.
\<close>

theorem irregular_spacing_blocked_by_pattern:
  "join_space (split ''rm   -rf     /'') = ''rm -rf /'' \<and>
   lower (strip ''rm   -rf     /'') = ''rm   -rf     /'' \<and>
   filter (\<lambda>substr. substring_rule_matches substr ''rm   -rf     /'')
     (DANGEROUS_SUBSTRINGS CommandSafety) = [] \<and>
   pattern_rule_matches (bs # ''brm'' @ bs # ''s+-rf'' @ bs # ''s+[/~'' @ bs # ''$]'')
     ''rm   -rf     /'' \<and>
   check CommandSafety ''rm   -rf     /'' =
     Inr (False, ''Blocked: Recursive delete of root or home'')"
  by code_simp



text \<open>
  C8. Matching is not anchored to the ends of the command. A command that holds the
  literal of any substring rule anywhere, after any text \<open>pre\<close> and before any text
  \<open>post\<close>, is blocked with the reason of a substring rule. A command \<open>cmd\<close> that any
  pattern rule matches is still matched by that rule, and blocked, inside every longer
  command \<open>pre @ cmd @ post\<close> in which a character that is not a word character, such as
  a space, a semicolon, an ampersand or a bracket, ends \<open>pre\<close> and begins \<open>post\<close>, each
  of which may be empty. In particular \<^verbatim>\<open>echo hi && rm -rf /\<close> and
  \<^verbatim>\<open>echo hi && reboot\<close> are blocked.
\<close>

theorem embedded_rule_blocks:
  "(\<forall>substr\<in>set (DANGEROUS_SUBSTRINGS CommandSafety).
      \<exists>s'\<in>set (DANGEROUS_SUBSTRINGS CommandSafety).
        check CommandSafety (pre @ substr @ post) =
          Inr (False, ''Blocked: potentially destructive ('' @ s' @ '')'')) \<and>
   (\<forall>(pattern, reason)\<in>set (DANGEROUS_PATTERNS CommandSafety).
      pattern_rule_matches pattern cmd \<and>
      (pre = [] \<or> \<not> is_word (last pre)) \<and> (post = [] \<or> \<not> is_word (hd post)) \<longrightarrow>
      pattern_rule_matches pattern (pre @ cmd @ post) \<and>
      (\<exists>v. check CommandSafety (pre @ cmd @ post) = Inr v \<and> \<not> is_safe v)) \<and>
   check CommandSafety ''echo hi && rm -rf /'' =
     Inr (False, ''Blocked: potentially destructive (rm -rf /)'') \<and>
   check CommandSafety ''echo hi && reboot'' = Inr (False, ''Blocked: System reboot'')"
proof (intro conjI ballI)
  show "\<exists>s'\<in>set (DANGEROUS_SUBSTRINGS CommandSafety).
        check CommandSafety (pre @ substr @ post) =
          Inr (False, ''Blocked: potentially destructive ('' @ s' @ '')'')"
    if "substr \<in> set (DANGEROUS_SUBSTRINGS CommandSafety)" for substr
    using that by (rule embedded_variant_blocked) simp
  show "case x of (pattern, reason) \<Rightarrow>
      pattern_rule_matches pattern cmd \<and>
      (pre = [] \<or> \<not> is_word (last pre)) \<and> (post = [] \<or> \<not> is_word (hd post)) \<longrightarrow>
      pattern_rule_matches pattern (pre @ cmd @ post) \<and>
      (\<exists>v. check CommandSafety (pre @ cmd @ post) = Inr v \<and> \<not> is_safe v)"
    if "x \<in> set (DANGEROUS_PATTERNS CommandSafety)" for x
  proof (cases x)
    case (Pair p r)
    with that pattern_rule_embedded_unsafe [of p r cmd pre post] show ?thesis by blast
  qed
  show "check CommandSafety ''echo hi && rm -rf /'' =
     Inr (False, ''Blocked: potentially destructive (rm -rf /)'')"
    by code_simp
  show "check CommandSafety ''echo hi && reboot'' = Inr (False, ''Blocked: System reboot'')"
    by code_simp
qed

theorem embedded_rule_blocks_witness:
  "''mkfs.ext'' \<in> set (DANGEROUS_SUBSTRINGS CommandSafety) \<and>
   (\<exists>s'\<in>set (DANGEROUS_SUBSTRINGS CommandSafety).
      check CommandSafety (''(cd /tmp;'' @ ''mkfs.ext'' @ '')'') =
        Inr (False, ''Blocked: potentially destructive ('' @ s' @ '')'')) \<and>
   (bs # ''breboot'' @ bs # ''b'', ''System reboot'') \<in> set (DANGEROUS_PATTERNS CommandSafety) \<and>
   pattern_rule_matches (bs # ''breboot'' @ bs # ''b'') ''reboot'' \<and>
   \<not> is_word (last ''(cd /tmp;'') \<and> \<not> is_word (hd '')'') \<and>
   pattern_rule_matches (bs # ''breboot'' @ bs # ''b'') (''(cd /tmp;'' @ ''reboot'' @ '')'') \<and>
   (\<exists>v. check CommandSafety (''(cd /tmp;'' @ ''reboot'' @ '')'') = Inr v \<and> \<not> is_safe v)"
proof -
  have i: "''mkfs.ext'' \<in> set (DANGEROUS_SUBSTRINGS CommandSafety)"
    by (simp add: CommandSafety_def)
  have j: "(bs # ''breboot'' @ bs # ''b'', ''System reboot'') \<in> set (DANGEROUS_PATTERNS CommandSafety)"
    by (simp add: CommandSafety_def)
  have m: "pattern_rule_matches (bs # ''breboot'' @ bs # ''b'') ''reboot''"
    by code_simp
  have w: "\<not> is_word (last ''(cd /tmp;'')" "\<not> is_word (hd '')'')"
    by (simp_all add: is_word_bits)
  from embedded_rule_blocks [of "''(cd /tmp;''" "'')''" "''reboot''"] i j m w show ?thesis
    by blast
qed

text \<open>
  C9, as the specification states it, fails on its last part. A call of \<open>check\<close> that
  reaches the pattern pass mutates state that outlives it: from an empty cache, the call
  on \<^verbatim>\<open>ls\<close> leaves the 25 compiled patterns in the cache of the regular-expression
  module. The next call reads that state: it finds every pattern there and stores
  nothing.
\<close>

theorem check_fills_pattern_cache:
  "snd (check_with_cache CommandSafety [] ''ls'') \<noteq> [] \<and>
   map fst (snd (check_with_cache CommandSafety [] ''ls'')) =
     map (\<lambda>(pattern, reason). (pattern, IGNORECASE)) (DANGEROUS_PATTERNS CommandSafety) \<and>
   snd (check_with_cache CommandSafety (snd (check_with_cache CommandSafety [] ''ls'')) ''ls'') =
     snd (check_with_cache CommandSafety [] ''ls'')"
  by code_simp

text \<open>
  C9, amended. \<open>check\<close> is deterministic: in every state of the cache that the module
  can have built, the call returns the verdict that the command alone determines, so
  two calls with the same command, one after the other or with other searches in
  between, return identical verdicts. The state that a call reads and mutates is the
  cache of compiled patterns, and no verdict depends on it.
\<close>

theorem check_verdict_ignores_cache:
  assumes "cache_ok cache"
  shows "fst (check_with_cache CommandSafety cache cmd) = check CommandSafety cmd \<and>
    cache_ok (snd (check_with_cache CommandSafety cache cmd)) \<and>
    fst (check_with_cache CommandSafety (snd (check_with_cache CommandSafety cache cmd)) cmd) =
      fst (check_with_cache CommandSafety cache cmd) \<and>
    (\<forall>cache'. cache_ok cache' \<longrightarrow>
       fst (check_with_cache CommandSafety cache' cmd) =
         fst (check_with_cache CommandSafety cache cmd))"
  using assms by (simp add: check_with_cache_ok)

theorem check_verdict_ignores_cache_witness:
  "cache_ok [] \<and>
   fst (check_with_cache CommandSafety [] ''reboot'') = Inr (False, ''Blocked: System reboot'') \<and>
   cache_ok (snd (check_with_cache CommandSafety [] ''reboot'')) \<and>
   fst (check_with_cache CommandSafety (snd (check_with_cache CommandSafety [] ''reboot''))
      ''reboot'') = Inr (False, ''Blocked: System reboot'')"
proof -
  have o: "cache_ok []" by (simp add: cache_ok_def)
  have c: "check CommandSafety ''reboot'' = Inr (False, ''Blocked: System reboot'')"
    by code_simp
  from check_verdict_ignores_cache [OF o, of "''reboot''"] o c show ?thesis
    by simp
qed

text \<open>
  C10. The bare word \<^verbatim>\<open>shutdown\<close>, with any whitespace before and after it, is safe:
  its whitespace-normalized copy is \<^verbatim>\<open>shutdown\<close> with nothing after it, and the pattern
  of the rule System shutdown ends in \<^verbatim>\<open>\s+\<close>, one whitespace character at least. The
  word followed by whitespace and further text is blocked; \<^verbatim>\<open>shutdown now\<close> is
  blocked by that rule.
\<close>

theorem bare_shutdown_is_safe:
  "(list_all isspace ws1 \<and> list_all isspace ws2 \<longrightarrow>
      join_space (split (ws1 @ ''shutdown'' @ ws2)) = ''shutdown'' \<and>
      check CommandSafety (ws1 @ ''shutdown'' @ ws2) = Inr (True, [])) \<and>
   re_compile (bs # ''bshutdown'' @ bs # ''s+'') =
     Inr [Boundary, Rep (Lit CHR ''s'') Once, Rep (Lit CHR ''h'') Once,
           Rep (Lit CHR ''u'') Once, Rep (Lit CHR ''t'') Once, Rep (Lit CHR ''d'') Once,
           Rep (Lit CHR ''o'') Once, Rep (Lit CHR ''w'') Once, Rep (Lit CHR ''n'') Once,
           Rep Space Plus] \<and>
   (ws \<noteq> [] \<and> list_all isspace ws \<and> \<not> isspace x \<longrightarrow>
      (\<exists>v. check CommandSafety (''shutdown'' @ ws @ x # rest) = Inr v \<and> \<not> is_safe v)) \<and>
   check CommandSafety ''shutdown now'' = Inr (False, ''Blocked: System shutdown'')"
proof (intro conjI impI)
  have w: "''shutdown'' \<noteq> []" "\<forall>c\<in>set ''shutdown''. \<not> isspace c"
    by (simp_all add: isspace_bits)
  have c: "check CommandSafety ''shutdown'' = Inr (True, [])"
    by code_simp
  assume a: "list_all isspace ws1 \<and> list_all isspace ws2"
  then show "join_space (split (ws1 @ ''shutdown'' @ ws2)) = ''shutdown''"
    using split_pad [OF _ _ w, of ws1 ws2] by (simp add: list_all_iff)
  from a show "check CommandSafety (ws1 @ ''shutdown'' @ ws2) = Inr (True, [])"
    using check_pad [OF _ _ w, of ws1 ws2 CommandSafety] c by (simp add: list_all_iff)
next
  show "re_compile (bs # ''bshutdown'' @ bs # ''s+'') =
     Inr [Boundary, Rep (Lit CHR ''s'') Once, Rep (Lit CHR ''h'') Once,
           Rep (Lit CHR ''u'') Once, Rep (Lit CHR ''t'') Once, Rep (Lit CHR ''d'') Once,
           Rep (Lit CHR ''o'') Once, Rep (Lit CHR ''w'') Once, Rep (Lit CHR ''n'') Once,
           Rep Space Plus]"
    by (rule shutdown_compiled)
next
  assume "ws \<noteq> [] \<and> list_all isspace ws \<and> \<not> isspace x"
  then have "pattern_rule_matches (bs # ''bshutdown'' @ bs # ''s+'') (''shutdown'' @ ws @ x # rest)"
    by (intro shutdown_with_argument) (simp_all add: list_all_iff)
  moreover have "(bs # ''bshutdown'' @ bs # ''s+'', ''System shutdown'')
      \<in> set (DANGEROUS_PATTERNS CommandSafety)"
    by (simp add: CommandSafety_def)
  ultimately show "\<exists>v. check CommandSafety (''shutdown'' @ ws @ x # rest) = Inr v \<and> \<not> is_safe v"
    using rule_match_unsafe by blast
next
  show "check CommandSafety ''shutdown now'' = Inr (False, ''Blocked: System shutdown'')"
    by code_simp
qed

theorem bare_shutdown_is_safe_witness:
  "list_all isspace [CHR '' '', CHR 0x09] \<and> list_all isspace [CHR 0x0A] \<and>
   check CommandSafety ([CHR '' '', CHR 0x09] @ ''shutdown'' @ [CHR 0x0A]) = Inr (True, []) \<and>
   \<not> isspace CHR ''-'' \<and>
   (\<exists>v. check CommandSafety (''shutdown'' @ [CHR 0x09] @ CHR ''-'' # ''h now'') = Inr v \<and> \<not> is_safe v)"
proof -
  have a: "list_all isspace [CHR '' '', CHR 0x09]" "list_all isspace [CHR 0x0A]"
    "list_all isspace [CHR 0x09]" "\<not> isspace CHR ''-''"
    by (simp_all add: isspace_bits)
  from a bare_shutdown_is_safe [of "[CHR '' '', CHR 0x09]" "[CHR 0x0A]" "[CHR 0x09]" "CHR ''-''" "''h now''"]
  show ?thesis by simp
qed

end
